theory Spec2Isabelle
  imports Complex_Main "HOL-Library.Sublist"
begin

section \<open>Python values used by \<open>rag_translator.py\<close>\<close>

text \<open>
  A Python \<open>str\<close> is a sequence of Unicode code points and \<open>len\<close> counts code points,
  so a string is modelled as a list of code points. The documents are Urdu and Hindi text:
  a byte string would give other lengths than the program sees.
\<close>

type_synonym ustr = "nat list"

definition lit :: "string \<Rightarrow> ustr" where
  "lit s = map of_char s"

text \<open>
  \<open>str.isspace\<close> for one code point, which is also what \<open>\s\<close> of the \<open>re\<close> module
  matches in a \<open>str\<close> pattern and what \<open>str.strip()\<close> and \<open>str.split()\<close> remove:
  U+0009..U+000D, U+001C..U+0020, U+0085, U+00A0, U+1680, U+2000..U+200A, U+2028, U+2029,
  U+202F, U+205F, U+3000.
\<close>

definition isspace :: "nat \<Rightarrow> bool" where
  "isspace c = ((9 \<le> c \<and> c \<le> 13) \<or> (28 \<le> c \<and> c \<le> 32) \<or> c = 133 \<or> c = 160 \<or> c = 5760
     \<or> (8192 \<le> c \<and> c \<le> 8202) \<or> c = 8232 \<or> c = 8233 \<or> c = 8239 \<or> c = 8287 \<or> c = 12288)"

definition lstrip :: "ustr \<Rightarrow> ustr" where
  "lstrip s = dropWhile isspace s"

definition rstrip :: "ustr \<Rightarrow> ustr" where
  "rstrip s = rev (dropWhile isspace (rev s))"

definition strip :: "ustr \<Rightarrow> ustr" where
  "strip s = rstrip (lstrip s)"

text \<open>Exceptions that leave a function of the module.\<close>

datatype error = KeyError | ZeroDivisionError | IndexError | TypeError | UnicodeEncodeError

text \<open>
  \<open>str.lower()\<close> follows the Unicode case tables, which are not part of the module: the
  functions that call it take it as the parameter \<open>lower\<close>. On ASCII text it is
  \<open>ascii_lower\<close>, which the examples use.
\<close>

definition ascii_lower :: "ustr \<Rightarrow> ustr" where
  "ascii_lower s = map (\<lambda>c. if 65 \<le> c \<and> c \<le> 90 then c + 32 else c) s"

text \<open>
  \<open>str.split()\<close> with no argument: the maximal runs of characters that are not white
  space. \<open>words_acc\<close> carries the word being read.
\<close>

fun words_acc :: "ustr \<Rightarrow> ustr \<Rightarrow> ustr list" where
  "words_acc cur [] = (if cur = [] then [] else [cur])"
| "words_acc cur (c # cs) =
     (if isspace c then (if cur = [] then words_acc [] cs else cur # words_acc [] cs)
      else words_acc (cur @ [c]) cs)"

definition split_ws :: "ustr \<Rightarrow> ustr list" where
  "split_ws s = words_acc [] s"

text \<open>
  An index into a list of length \<open>n\<close>, as Python reads it: a negative index counts from
  the end, and an index out of range raises \<open>IndexError\<close> (here \<open>None\<close>).
\<close>

definition py_index :: "nat \<Rightarrow> int \<Rightarrow> nat option" where
  "py_index n i =
     (let j = (if i < 0 then int n + i else i)
      in if 0 \<le> j \<and> j < int n then Some (nat j) else None)"

text \<open>
  A trimmed string: not empty, with no white space at either end. These are the values
  of \<open>s.strip()\<close> that count as true.
\<close>

definition trimmed :: "ustr \<Rightarrow> bool" where
  "trimmed s = (s \<noteq> [] \<and> \<not> isspace (hd s) \<and> \<not> isspace (last s))"

section \<open>The cache (\<open>TranslationCache\<close>)\<close>

text \<open>
  \<open>self.cache\<close> is an \<open>OrderedDict\<close>: an association list with distinct keys, oldest
  entry first. \<open>d[k] = v\<close> overwrites the value in place when \<open>k\<close> is present and appends
  otherwise; \<open>move_to_end(k)\<close>, called on a present key only, moves the entry to the end
  (written out in \<open>cache_get\<close>); \<open>popitem(last=False)\<close> removes the first entry and
  raises \<open>KeyError\<close> on an empty dictionary.
\<close>

fun od_setitem :: "'k \<Rightarrow> 'v \<Rightarrow> ('k \<times> 'v) list \<Rightarrow> ('k \<times> 'v) list" where
  "od_setitem k v [] = [(k, v)]"
| "od_setitem k v (e # es) = (if fst e = k then (k, v) # es else e # od_setitem k v es)"

definition od_popitem_first :: "('k \<times> 'v) list \<Rightarrow> error + ('k \<times> 'v) list" where
  "od_popitem_first d = (case d of [] \<Rightarrow> Inl KeyError | e # es \<Rightarrow> Inr es)"

record ('k, 'v) translation_cache =
  cache :: "('k \<times> 'v) list"
  max_size :: int
  hits :: nat
  misses :: nat

definition TranslationCache :: "int \<Rightarrow> ('k, 'v) translation_cache" where
  "TranslationCache m = \<lparr>cache = [], max_size = m, hits = 0, misses = 0\<rparr>"

text \<open>
  The key is \<open>hashlib.md5(text.encode('utf-8')).hexdigest()\<close>; the digest function is
  the parameter \<open>hk\<close> of the two operations.

  \<open>get\<close> returns the value and the updated cache; \<open>None\<close> is Python's \<open>None\<close> of the
  miss. \<open>set\<close> can raise (the \<open>popitem\<close> of an empty dictionary, when \<open>max_size \<le> 0\<close>).
\<close>

definition cache_get ::
  "('t \<Rightarrow> 'k) \<Rightarrow> ('k, 'v) translation_cache \<Rightarrow> 't \<Rightarrow> 'v option \<times> ('k, 'v) translation_cache" where
  "cache_get hk c t =
     (let key = hk t in
      case map_of (cache c) key of
        Some v \<Rightarrow>
          (Some v, c\<lparr>hits := hits c + 1,
                      cache := filter (\<lambda>e. fst e \<noteq> key) (cache c) @ [(key, v)]\<rparr>)
      | None \<Rightarrow> (None, c\<lparr>misses := misses c + 1\<rparr>))"

definition cache_set ::
  "('t \<Rightarrow> 'k) \<Rightarrow> ('k, 'v) translation_cache \<Rightarrow> 't \<Rightarrow> 'v \<Rightarrow> error + ('k, 'v) translation_cache" where
  "cache_set hk c t v =
     (let key = hk t in
      if int (length (cache c)) \<ge> max_size c then
        (case od_popitem_first (cache c) of
           Inl e \<Rightarrow> Inl e
         | Inr d \<Rightarrow> Inr (c\<lparr>cache := od_setitem key v d\<rparr>))
      else Inr (c\<lparr>cache := od_setitem key v (cache c)\<rparr>))"

text \<open>
  A Python string can hold a lone surrogate (a code point from U+D800 to U+DFFF), and
  \<open>text.encode('utf-8')\<close> raises \<open>UnicodeEncodeError\<close> for such a text. \<open>_hash_key\<close> is the
  first statement of \<open>get\<close> and of \<open>set\<close>, so the exception leaves the cache as it was.
  \<open>get_text\<close> and \<open>set_text\<close> are \<open>get\<close> and \<open>set\<close> called with a text, \<open>digest\<close> being the
  MD5 digest of the encoded text.
\<close>

definition encodable :: "ustr \<Rightarrow> bool" where
  "encodable s = list_all (\<lambda>c. c < 55296 \<or> 57343 < c) s"

definition hash_key :: "(ustr \<Rightarrow> 'k) \<Rightarrow> ustr \<Rightarrow> error + 'k" where
  "hash_key digest t = (if encodable t then Inr (digest t) else Inl UnicodeEncodeError)"

definition get_text ::
  "(ustr \<Rightarrow> 'k) \<Rightarrow> ('k, 'v) translation_cache \<Rightarrow> ustr
     \<Rightarrow> error + 'v option \<times> ('k, 'v) translation_cache" where
  "get_text digest c t =
     (case hash_key digest t of
        Inl e \<Rightarrow> Inl e
      | Inr key \<Rightarrow> Inr (cache_get (\<lambda>x. key) c t))"

definition set_text ::
  "(ustr \<Rightarrow> 'k) \<Rightarrow> ('k, 'v) translation_cache \<Rightarrow> ustr \<Rightarrow> 'v
     \<Rightarrow> error + ('k, 'v) translation_cache" where
  "set_text digest c t v =
     (case hash_key digest t of
        Inl e \<Rightarrow> Inl e
      | Inr key \<Rightarrow> cache_set (\<lambda>x. key) c t v)"

text \<open>A sequence of calls on one cache; an exception ends it.\<close>

datatype ('t, 'v) cache_op = Op_get 't | Op_set 't 'v

fun run_ops ::
  "('t \<Rightarrow> 'k) \<Rightarrow> ('k, 'v) translation_cache \<Rightarrow> ('t, 'v) cache_op list
     \<Rightarrow> error + ('k, 'v) translation_cache" where
  "run_ops hk c [] = Inr c"
| "run_ops hk c (Op_get t # ops) = run_ops hk (snd (cache_get hk c t)) ops"
| "run_ops hk c (Op_set t v # ops) =
     (case cache_set hk c t v of Inl e \<Rightarrow> Inl e | Inr c' \<Rightarrow> run_ops hk c' ops)"

text \<open>
  Least recently used, in the words of the specification and independent of the
  dictionary's order: an operation uses the key of its text, and \<open>last_use hk ops k\<close> is
  the position (from 1) of the last operation of the history \<open>ops\<close> that uses \<open>k\<close>,
  0 when none does. \<open>set_keys\<close> lists the keys the \<open>set\<close> calls of a history insert.
\<close>

fun touches :: "('t \<Rightarrow> 'k) \<Rightarrow> 'k \<Rightarrow> ('t, 'v) cache_op \<Rightarrow> bool" where
  "touches hk k (Op_get t) = (hk t = k)"
| "touches hk k (Op_set t v) = (hk t = k)"

definition last_use :: "('t \<Rightarrow> 'k) \<Rightarrow> ('t, 'v) cache_op list \<Rightarrow> 'k \<Rightarrow> nat" where
  "last_use hk ops k = length (dropWhile (\<lambda>x. \<not> touches hk k x) (rev ops))"

fun set_keys :: "('t \<Rightarrow> 'k) \<Rightarrow> ('t, 'v) cache_op list \<Rightarrow> 'k list" where
  "set_keys hk [] = []"
| "set_keys hk (Op_get t # ops) = set_keys hk ops"
| "set_keys hk (Op_set t v # ops) = hk t # set_keys hk ops"

text \<open>
  The invariant of the dictionary under a history \<open>h\<close>: distinct keys, at most
  \<open>max_size\<close> of them, ordered by their last use, and every key was inserted by a
  \<open>set\<close> of the history.
\<close>

definition lru_inv :: "('t \<Rightarrow> 'k) \<Rightarrow> ('t, 'v) cache_op list \<Rightarrow> ('k, 'v) translation_cache \<Rightarrow> bool" where
  "lru_inv hk h c \<longleftrightarrow>
     distinct (map fst (cache c)) \<and> int (length (cache c)) \<le> max_size c \<and>
     sorted_wrt (\<lambda>a b. last_use hk h a < last_use hk h b) (map fst (cache c)) \<and>
     set (map fst (cache c)) \<subseteq> set (set_keys hk h)"

text \<open>
  \<open>cache_steps hk c c'\<close>: the cache \<open>c'\<close> is what some sequence of \<open>get\<close> and \<open>set\<close> calls
  makes of the cache \<open>c\<close>; nothing was reset in between.
\<close>

definition cache_steps ::
  "('t \<Rightarrow> 'k) \<Rightarrow> ('k, 'v) translation_cache \<Rightarrow> ('k, 'v) translation_cache \<Rightarrow> bool" where
  "cache_steps hk c c' = (\<exists>ops. run_ops hk c ops = Inr c')"

section \<open>The embedder (\<open>SimpleEmbedder\<close>)\<close>

text \<open>
  Floats are modelled as reals: the additions of 1.0 and 0.5 are exact in the program as
  well, the square root and the divisions of the normalisation are rounded there.
  Python's \<open>hash\<close> of a string differs from process to process: it is the parameter
  \<open>hash\<close>. \<open>x % dim\<close> has the sign of \<open>dim\<close>, like \<open>mod\<close> on \<open>int\<close>, and raises
  \<open>ZeroDivisionError\<close> for \<open>dim = 0\<close>; \<open>[0.0] * dim\<close> is empty for a negative \<open>dim\<close>.
\<close>

text \<open>The two loops \<open>idx = hash(token) % self.dim; vector[idx] += weight\<close>; \<open>dim'\<close> is
  \<open>self.dim\<close>.\<close>

fun accumulate ::
  "(ustr \<Rightarrow> int) \<Rightarrow> int \<Rightarrow> real \<Rightarrow> ustr list \<Rightarrow> real list \<Rightarrow> error + real list" where
  "accumulate hash dim' weight [] vector = Inr vector"
| "accumulate hash dim' weight (token # tokens) vector =
     (if dim' = 0 then Inl ZeroDivisionError
      else
        (case py_index (length vector) (hash token mod dim') of
           None \<Rightarrow> Inl IndexError
         | Some idx \<Rightarrow>
             accumulate hash dim' weight tokens (vector[idx := vector ! idx + weight])))"

definition trigrams :: "ustr \<Rightarrow> ustr list" where
  "trigrams text = map (\<lambda>i. take 3 (drop i text)) [0 ..< length text - 2]"

definition magnitude :: "real list \<Rightarrow> real" where
  "magnitude vector = sqrt (sum_list (map (\<lambda>x. x * x) vector))"

definition embed :: "(ustr \<Rightarrow> int) \<Rightarrow> (ustr \<Rightarrow> ustr) \<Rightarrow> int \<Rightarrow> ustr \<Rightarrow> error + real list" where
  "embed hash lower dim' text =
     (if text = [] then Inr (replicate (nat dim') 0)
      else
        (let text' = strip (lower text) in
         case accumulate hash dim' 1 (trigrams text') (replicate (nat dim') 0) of
           Inl e \<Rightarrow> Inl e
         | Inr vector \<Rightarrow>
             (case accumulate hash dim' (1 / 2) (split_ws text') vector of
                Inl e \<Rightarrow> Inl e
              | Inr vector' \<Rightarrow>
                  (let m = (if magnitude vector' = 0 then 1 else magnitude vector')
                   in Inr (map (\<lambda>x. x / m) vector')))))"

text \<open>\<open>similarity\<close>: the dot product over \<open>zip(vec1, vec2)\<close>.\<close>

definition similarity :: "real list \<Rightarrow> real list \<Rightarrow> real" where
  "similarity vec1 vec2 = sum_list (map (\<lambda>(a, b). a * b) (zip vec1 vec2))"

text \<open>A hash function for the examples: the sum of the code points.\<close>

definition sum_hash :: "ustr \<Rightarrow> int" where
  "sum_hash s = int (sum_list s)"

section \<open>The chunker (\<open>DocumentChunk\<close>, \<open>SmartChunker\<close>)\<close>

text \<open>
  The fields \<open>id\<close> and \<open>text\<close> are primed: \<open>id\<close> is a constant of HOL and \<open>text\<close> a
  keyword. The \<open>metadata\<close> dictionary is never written and is left out.
\<close>

record document_chunk =
  id' :: nat
  text' :: ustr
  start_pos :: int
  end_pos :: int
  page_number :: "nat option"
  embedding :: "real list option"

text \<open>
  The regular expression \<open>--- Page \d+ ---\<close>, tried at the start of a string: the length of
  the match. \<open>\d\<close> matches every Unicode decimal digit and \<open>int\<close> reads every such digit;
  that table is the parameter \<open>digit\<close>, which gives the value of a code point that is a
  decimal digit (\<open>ascii_digit\<close> in the examples). A digit is never a space, so the greedy
  \<open>\d+\<close> takes the whole run of digits.
\<close>

definition ascii_digit :: "nat \<Rightarrow> nat option" where
  "ascii_digit c = (if 48 \<le> c \<and> c \<le> 57 then Some (c - 48) else None)"

definition match_marker :: "(nat \<Rightarrow> nat option) \<Rightarrow> ustr \<Rightarrow> nat option" where
  "match_marker digit s =
     (if prefix (lit ''--- Page '') s then
        (let ds = takeWhile (\<lambda>c. digit c \<noteq> None) (drop 9 s) in
         if ds \<noteq> [] \<and> prefix (lit '' ---'') (drop (9 + length ds) s)
         then Some (9 + length ds + 4) else None)
      else None)"

text \<open>
  \<open>re.split(page_pattern, text)\<close>: the pattern is one group, so the result alternates
  the text between two markers and the marker. \<open>cur\<close> is the text read since the last
  marker.
\<close>

function re_split_pages :: "(nat \<Rightarrow> nat option) \<Rightarrow> ustr \<Rightarrow> ustr \<Rightarrow> ustr list" where
  "re_split_pages digit cur s =
     (case s of
        [] \<Rightarrow> [cur]
      | c # cs \<Rightarrow>
          (case match_marker digit s of
             Some n \<Rightarrow> cur # take n s # re_split_pages digit [] (drop n s)
           | None \<Rightarrow> re_split_pages digit (cur @ [c]) cs))"
  by pat_completeness auto
termination
  by (relation "measure (\<lambda>(digit, cur, s). length s)")
    (auto simp: match_marker_def Let_def split: if_splits)

declare re_split_pages.simps [simp del]

text \<open>
  \<open>int(re.search(r'Page (\d+)', part).group(1))\<close>: the number after the first \<open>Page \<close>
  that a digit follows; \<open>None\<close> when the search finds nothing. (Recent Python versions
  refuse to convert more than 4300 digits; the model converts every run.)
\<close>

definition int_of_digits :: "(nat \<Rightarrow> nat option) \<Rightarrow> ustr \<Rightarrow> nat" where
  "int_of_digits digit ds = foldl (\<lambda>n c. 10 * n + (case digit c of Some v \<Rightarrow> v | None \<Rightarrow> 0)) 0 ds"

fun search_page :: "(nat \<Rightarrow> nat option) \<Rightarrow> ustr \<Rightarrow> nat option" where
  "search_page digit [] = None"
| "search_page digit (c # cs) =
     (if prefix (lit ''Page '') (c # cs) \<and> takeWhile (\<lambda>c. digit c \<noteq> None) (drop 5 (c # cs)) \<noteq> []
      then Some (int_of_digits digit (takeWhile (\<lambda>c. digit c \<noteq> None) (drop 5 (c # cs))))
      else search_page digit cs)"

text \<open>
  The first loop of \<open>chunk_document\<close>, over the parts: the state is \<open>full_text\<close>,
  \<open>page_positions\<close> (a dictionary, in insertion order) and \<open>current_page\<close>.
\<close>

type_synonym pages = "ustr \<times> (nat \<times> nat) list \<times> nat"

definition add_part :: "(nat \<Rightarrow> nat option) \<Rightarrow> pages \<Rightarrow> ustr \<Rightarrow> pages" where
  "add_part digit st part =
     (case st of (full_text, page_positions, current_page) \<Rightarrow>
        if match_marker digit part \<noteq> None then
          (case search_page digit part of
             Some n \<Rightarrow> (full_text, page_positions, n)
           | None \<Rightarrow> (full_text, page_positions, current_page))
        else
          (full_text @ part, od_setitem (length full_text) current_page page_positions,
           current_page))"

definition read_pages :: "(nat \<Rightarrow> nat option) \<Rightarrow> ustr \<Rightarrow> pages" where
  "read_pages digit s = foldl (add_part digit) ([], [], 1) (re_split_pages digit [] s)"

text \<open>
  \<open>re.split(r'(?<=[.!?\<dots>])\s+', text)\<close>, where the class also holds the danda U+0964 and
  the double danda U+0965: the text is cut at every run of white space that follows one
  of these characters. The scan is either in the text (knowing whether the last
  character ends a sentence) or in such a run.
\<close>

definition is_sentence_end :: "nat \<Rightarrow> bool" where
  "is_sentence_end c = (c = 46 \<or> c = 33 \<or> c = 63 \<or> c = 2404 \<or> c = 2405)"

datatype scan = In_text bool | In_gap

fun re_split_sentences :: "scan \<Rightarrow> ustr \<Rightarrow> ustr \<Rightarrow> ustr list" where
  "re_split_sentences st cur [] = [cur]"
| "re_split_sentences (In_text after_end) cur (c # cs) =
     (if after_end \<and> isspace c then cur # re_split_sentences In_gap [] cs
      else re_split_sentences (In_text (is_sentence_end c)) (cur @ [c]) cs)"
| "re_split_sentences In_gap cur (c # cs) =
     (if isspace c then re_split_sentences In_gap cur cs
      else re_split_sentences (In_text (is_sentence_end c)) (cur @ [c]) cs)"

definition split_into_sentences :: "ustr \<Rightarrow> ustr list" where
  "split_into_sentences s =
     filter (\<lambda>x. x \<noteq> []) (map strip (re_split_sentences (In_text False) [] s))"

text \<open>
  The page of a chunk: the loop over \<open>page_positions.items()\<close> keeps the page of the last
  entry whose position is at most \<open>current_start\<close>, and 1 when there is none.
\<close>

definition page_at :: "(nat \<times> nat) list \<Rightarrow> int \<Rightarrow> nat" where
  "page_at page_positions current_start =
     foldl (\<lambda>page_num (pos, page). if int pos \<le> current_start then page else page_num)
       1 page_positions"

text \<open>The state of the second loop, over the sentences.\<close>

record chunker =
  chunks' :: "document_chunk list"
  current_chunk :: ustr
  current_start :: int
  chunk_id :: nat

text \<open>
  \<open>if current_chunk.strip(): chunks.append(DocumentChunk(...)); chunk_id += 1\<close>. The same
  append ends the function (there without the increment, which nothing reads any more).
\<close>

definition close_chunk :: "(nat \<times> nat) list \<Rightarrow> chunker \<Rightarrow> chunker" where
  "close_chunk page_positions st =
     (if strip (current_chunk st) \<noteq> [] then
        st\<lparr>chunks' := chunks' st @
              [\<lparr>id' = chunk_id st, text' = strip (current_chunk st),
                start_pos = current_start st,
                end_pos = current_start st + int (length (current_chunk st)),
                page_number = Some (page_at page_positions (current_start st)),
                embedding = None\<rparr>],
           chunk_id := chunk_id st + 1\<rparr>
      else st)"

text \<open>
  The body of the loop. \<open>chunks[-1].text[-overlap:]\<close> with a positive \<open>overlap\<close> is the
  last \<open>overlap\<close> characters of the text, all of it when it is shorter.
\<close>

definition add_sentence :: "(nat \<times> nat) list \<Rightarrow> int \<Rightarrow> int \<Rightarrow> chunker \<Rightarrow> ustr \<Rightarrow> chunker" where
  "add_sentence page_positions chunk_size overlap st sentence =
     (if int (length (current_chunk st)) + int (length sentence) \<le> chunk_size then
        st\<lparr>current_chunk := current_chunk st @ sentence @ lit '' ''\<rparr>
      else
        (let st1 = close_chunk page_positions st in
         if chunks' st1 \<noteq> [] \<and> 0 < overlap then
           st1\<lparr>current_start := end_pos (last (chunks' st1)) - overlap,
               current_chunk :=
                 drop (length (text' (last (chunks' st1))) - nat overlap) (text' (last (chunks' st1)))
                 @ lit '' '' @ sentence @ lit '' ''\<rparr>
         else
           st1\<lparr>current_start := (if chunks' st1 \<noteq> [] then end_pos (last (chunks' st1)) else 0),
               current_chunk := sentence @ lit '' ''\<rparr>))"

definition document_sentences :: "(nat \<Rightarrow> nat option) \<Rightarrow> ustr \<Rightarrow> ustr list" where
  "document_sentences digit s = split_into_sentences (fst (read_pages digit s))"

definition chunk_document :: "(nat \<Rightarrow> nat option) \<Rightarrow> ustr \<Rightarrow> int \<Rightarrow> int \<Rightarrow> document_chunk list" where
  "chunk_document digit s chunk_size overlap =
     (if s = [] \<or> strip s = [] then []
      else
        (let page_positions = fst (snd (read_pages digit s));
             st = foldl (add_sentence page_positions chunk_size overlap)
                    \<lparr>chunks' = [], current_chunk = [], current_start = 0, chunk_id = 0\<rparr>
                    (document_sentences digit s)
         in chunks' (close_chunk page_positions st)))"

definition CHUNK_SIZE :: int where
  "CHUNK_SIZE = 1200"

definition OVERLAP_SIZE :: int where
  "OVERLAP_SIZE = 150"

text \<open>
  What the loop guarantees about a chunk text \<open>t\<close>, given the sentences of the document:
  it has at most \<open>chunk_size\<close> characters, or it ends with one whole sentence, before
  which there are at most \<open>overlap\<close> characters of the previous chunk and one space.
  \<open>bounded_buffer\<close> is the same for the running buffer \<open>current_chunk\<close>, which ends with
  the space written after each sentence, and \<open>kept\<close> says that a sentence is still whole
  in a chunk or in the buffer.
\<close>

definition within_bound :: "ustr list \<Rightarrow> int \<Rightarrow> int \<Rightarrow> ustr \<Rightarrow> bool" where
  "within_bound sentences chunk_size overlap t =
     (int (length t) \<le> chunk_size \<or>
      (\<exists>x \<in> set sentences. suffix x t \<and> int (length t) \<le> int (length x) + max 0 overlap + 1))"

definition bounded_buffer :: "ustr list \<Rightarrow> int \<Rightarrow> int \<Rightarrow> ustr \<Rightarrow> bool" where
  "bounded_buffer sentences chunk_size overlap cur =
     (cur = [] \<or>
      (\<exists>body. cur = body @ [32] \<and>
         (int (length body) \<le> chunk_size \<or>
          (\<exists>x \<in> set sentences. \<exists>seed. body = seed @ x \<and> int (length seed) \<le> max 0 overlap + 1))))"

definition kept :: "chunker \<Rightarrow> ustr \<Rightarrow> bool" where
  "kept st x = ((\<exists>c \<in> set (chunks' st). sublist x (text' c)) \<or> sublist x (current_chunk st))"

section \<open>The generation client (\<open>PromptTemplates\<close>, \<open>GeminiGenerator\<close>)\<close>

text \<open>
  Truth value of an \<open>Optional[str]\<close>: \<open>None\<close> and the empty string are false.
\<close>

definition truthy :: "ustr option \<Rightarrow> bool" where
  "truthy v = (case v of None \<Rightarrow> False | Some s \<Rightarrow> s \<noteq> [])"

text \<open>
  \<open>get_translation_prompt\<close> fills one of two fixed templates. The rendered text plays no
  part below, so a prompt is kept as the template chosen and the values filled in: the
  context template gets \<open>context[:200]\<close> and the text, the first-chunk template the two
  language names and the text.
\<close>

datatype prompt = Translation_prompt ustr ustr ustr | Context_prompt ustr ustr

definition get_translation_prompt :: "ustr \<Rightarrow> ustr \<Rightarrow> ustr \<Rightarrow> ustr option \<Rightarrow> prompt" where
  "get_translation_prompt text source_lang target_lang context =
     (case context of
        None \<Rightarrow> Translation_prompt source_lang target_lang text
      | Some c \<Rightarrow>
          if c \<noteq> [] then Context_prompt (take 200 c) text
          else Translation_prompt source_lang target_lang text)"

text \<open>
  What one \<open>requests.post\<close> can do: raise \<open>requests.exceptions.Timeout\<close>, raise another
  exception (with its \<open>str(e)\<close>), or return a response. Of a response the code reads the
  status code, \<open>raise_for_status()\<close> (which raises \<open>HTTPError\<close> for a status from 400 to
  599; the second field is that exception's message) and \<open>json()\<close>. The body is one of:
  a non-empty \<open>candidates\<close> list whose first entry leads to a string \<open>text\<close>; one where
  that value is not a string, so that \<open>text.strip()\<close> raises after the counter was
  incremented; no (or empty) \<open>candidates\<close>; or a body on which \<open>json()\<close> or the indexing
  raises.
\<close>

datatype json_result =
    Candidates_text ustr
  | Candidates_not_str ustr
  | No_candidates
  | Json_error ustr

datatype http_outcome = Timeout | Request_error ustr | Response int ustr json_result

text \<open>
  The endpoint is a parameter: \<open>endpoint n p\<close> is the outcome of the \<open>n\<close>-th POST of the
  process (from 0) when it carries prompt \<open>p\<close>. The field \<open>posts\<close> is not a field of the
  class: it counts the calls of \<open>requests.post\<close> made so far. \<open>last_request_time\<close> and
  the sleeps are left out (no property is about time).
\<close>

record gemini_generator =
  api_key :: "ustr option"
  request_count :: nat
  posts :: nat

definition GeminiGenerator :: "ustr option \<Rightarrow> gemini_generator" where
  "GeminiGenerator key = \<lparr>api_key = key, request_count = 0, posts = 0\<rparr>"

definition MAX_RETRIES :: nat where
  "MAX_RETRIES = 3"

type_synonym generation = "ustr option \<times> ustr option"

text \<open>
  The two \<open>except\<close> clauses: retry unless this was the last attempt (\<open>None\<close> stands for
  \<open>continue\<close>).
\<close>

definition on_exception :: "nat \<Rightarrow> ustr \<Rightarrow> generation option" where
  "on_exception attempt message =
     (if attempt < MAX_RETRIES - 1 then None else Some (None, Some message))"

text \<open>The body of the \<open>for attempt in range(MAX_RETRIES)\<close> loop.\<close>

definition attempt_once ::
  "(nat \<Rightarrow> prompt \<Rightarrow> http_outcome) \<Rightarrow> prompt \<Rightarrow> nat \<Rightarrow> gemini_generator
     \<Rightarrow> generation option \<times> gemini_generator" where
  "attempt_once endpoint p attempt g =
     (let g1 = g\<lparr>posts := posts g + 1\<rparr> in
      case endpoint (posts g) p of
        Timeout \<Rightarrow> (on_exception attempt (lit ''Request timeout''), g1)
      | Request_error message \<Rightarrow> (on_exception attempt message, g1)
      | Response status_code http_error body \<Rightarrow>
          if status_code = 429 then (None, g1)
          else if status_code = 503 then (None, g1)
          else if 400 \<le> status_code \<and> status_code < 600 then (on_exception attempt http_error, g1)
          else
            (case body of
               Candidates_text text \<Rightarrow>
                 (Some (Some (strip text), None), g1\<lparr>request_count := request_count g1 + 1\<rparr>)
             | Candidates_not_str message \<Rightarrow>
                 (on_exception attempt message, g1\<lparr>request_count := request_count g1 + 1\<rparr>)
             | No_candidates \<Rightarrow> (Some (None, Some (lit ''No response generated'')), g1)
             | Json_error message \<Rightarrow> (on_exception attempt message, g1)))"

function generate_loop ::
  "(nat \<Rightarrow> prompt \<Rightarrow> http_outcome) \<Rightarrow> prompt \<Rightarrow> nat \<Rightarrow> gemini_generator
     \<Rightarrow> generation \<times> gemini_generator" where
  "generate_loop endpoint p attempt g =
     (if attempt < MAX_RETRIES then
        (case attempt_once endpoint p attempt g of
           (Some result, g') \<Rightarrow> (result, g')
         | (None, g') \<Rightarrow> generate_loop endpoint p (attempt + 1) g')
      else ((None, Some (lit ''Max retries exceeded'')), g))"
  by pat_completeness auto
termination
  by (relation "measure (\<lambda>(endpoint, p, attempt, g). MAX_RETRIES - attempt)") auto

declare generate_loop.simps [simp del]

definition generate ::
  "(nat \<Rightarrow> prompt \<Rightarrow> http_outcome) \<Rightarrow> gemini_generator \<Rightarrow> prompt
     \<Rightarrow> generation \<times> gemini_generator" where
  "generate endpoint g p =
     (if \<not> truthy (api_key g) then ((None, Some (lit ''API key not configured'')), g)
      else generate_loop endpoint p 0 g)"

text \<open>
  An endpoint for the examples: status 429 for the first two POSTs, then status 200 with
  the text \<open>" Hello "\<close>.
\<close>

definition busy_twice :: "nat \<Rightarrow> prompt \<Rightarrow> http_outcome" where
  "busy_twice n p =
     (if n < 2 then Response 429 [] No_candidates
      else Response 200 [] (Candidates_text (lit '' Hello '')))"

text \<open>
  An endpoint for the examples whose every POST raises an exception with an empty
  message (\<open>str(e)\<close> is \<open>''\<close>, as for an exception raised without arguments).
\<close>

definition nameless_error :: "nat \<Rightarrow> prompt \<Rightarrow> http_outcome" where
  "nameless_error n p = Request_error []"

text \<open>
  An endpoint whose exceptions all have a message: no \<open>str(e)\<close> that \<open>generate\<close> can
  return as its error is the empty string.
\<close>

definition named_errors :: "(nat \<Rightarrow> prompt \<Rightarrow> http_outcome) \<Rightarrow> bool" where
  "named_errors endpoint =
     (\<forall>n p.
        case endpoint n p of
          Timeout \<Rightarrow> True
        | Request_error message \<Rightarrow> message \<noteq> []
        | Response status_code http_error body \<Rightarrow>
            (400 \<le> status_code \<and> status_code < 600 \<longrightarrow> http_error \<noteq> []) \<and>
            (case body of
               Candidates_not_str message \<Rightarrow> message \<noteq> []
             | Json_error message \<Rightarrow> message \<noteq> []
             | _ \<Rightarrow> True))"

section \<open>Quality checks (\<open>TranslationQuality.detect_issues\<close>)\<close>

text \<open>\<open>a in b\<close> on strings is \<open>sublist a b\<close>: \<open>a\<close> occurs in \<open>b\<close> as a contiguous run.\<close>

definition detect_issues :: "ustr \<Rightarrow> ustr list" where
  "detect_issues translated =
     (if sublist (lit ''[?]'') translated then [lit ''Contains uncertain translations''] else []) @
     (if length translated < 10 then [lit ''Translation too short''] else []) @
     (if sublist (lit ''Translation unavailable'') translated
      then [lit ''Translation failed for some chunks''] else [])"

text \<open>
  The string \<open>translate_document\<close> puts in the place of a chunk whose generation failed:
  \<open>f"[Translation failed: {chunk.text[:100]}...]"\<close>.
\<close>

definition failure_placeholder :: "ustr \<Rightarrow> ustr" where
  "failure_placeholder text = lit ''[Translation failed: '' @ take 100 text @ lit ''...]''"

section \<open>Reassembly (\<open>RAGTranslationPipeline._combine_chunks\<close>)\<close>

text \<open>
  \<open>range(n, 10, -5)\<close>: \<open>n\<close>, \<open>n - 5\<close>, ... as long as the value is greater than 10.
\<close>

function overlap_range :: "nat \<Rightarrow> nat list" where
  "overlap_range n = (if 10 < n then n # overlap_range (n - 5) else [])"
  by pat_completeness auto
termination
  by (relation "measure (\<lambda>n. n)") auto

declare overlap_range.simps [simp del]

text \<open>
  The inner loop: the first \<open>overlap_size\<close> of the range with
  \<open>result[-overlap_size:].lower() == chunk[:overlap_size].lower()\<close>. Every size of the
  range is positive and at most \<open>len(result)\<close>, so the slice \<open>result[-overlap_size:]\<close> is
  the last \<open>overlap_size\<close> characters.
\<close>

fun first_overlap :: "(ustr \<Rightarrow> ustr) \<Rightarrow> ustr \<Rightarrow> ustr \<Rightarrow> nat list \<Rightarrow> nat option" where
  "first_overlap lower result chunk [] = None"
| "first_overlap lower result chunk (overlap_size # sizes) =
     (if lower (drop (length result - overlap_size) result) = lower (take overlap_size chunk)
      then Some overlap_size
      else first_overlap lower result chunk sizes)"

text \<open>One turn of the outer loop: the new \<open>result\<close>.\<close>

definition combine_step :: "(ustr \<Rightarrow> ustr) \<Rightarrow> ustr \<Rightarrow> ustr \<Rightarrow> ustr" where
  "combine_step lower result chunk =
     (case first_overlap lower result chunk
             (overlap_range (min 50 (min (length result) (length chunk)))) of
        Some overlap_size \<Rightarrow> result @ drop overlap_size chunk
      | None \<Rightarrow> result @ lit '' '' @ chunk)"

definition combine_chunks :: "(ustr \<Rightarrow> ustr) \<Rightarrow> ustr list \<Rightarrow> ustr" where
  "combine_chunks lower chunks =
     (case chunks of
        [] \<Rightarrow> []
      | first # rest \<Rightarrow> strip (foldl (combine_step lower) first rest))"

text \<open>
  The reassembly as the specification words it, for comparison: the candidate lengths go
  from \<open>min(50, len(result), len(chunk))\<close> down to 10, 10 included, in steps of 5, and
  nothing is trimmed.
\<close>

function claimed_overlap_range :: "nat \<Rightarrow> nat list" where
  "claimed_overlap_range n = (if 10 \<le> n then n # claimed_overlap_range (n - 5) else [])"
  by pat_completeness auto
termination
  by (relation "measure (\<lambda>n. n)") auto

declare claimed_overlap_range.simps [simp del]

definition claimed_combine_step :: "(ustr \<Rightarrow> ustr) \<Rightarrow> ustr \<Rightarrow> ustr \<Rightarrow> ustr" where
  "claimed_combine_step lower result chunk =
     (case first_overlap lower result chunk
             (claimed_overlap_range (min 50 (min (length result) (length chunk)))) of
        Some overlap_size \<Rightarrow> result @ drop overlap_size chunk
      | None \<Rightarrow> result @ lit '' '' @ chunk)"

definition claimed_combine_chunks :: "(ustr \<Rightarrow> ustr) \<Rightarrow> ustr list \<Rightarrow> ustr" where
  "claimed_combine_chunks lower chunks =
     (case chunks of
        [] \<Rightarrow> []
      | first # rest \<Rightarrow> foldl (claimed_combine_step lower) first rest)"

text \<open>
  The overlap lengths the loop of \<open>_combine_chunks\<close> can accept for \<open>result\<close> and
  \<open>chunk\<close>, as a set: the lengths \<open>k\<close> above 10 on the grid \<open>m, m - 5, m - 10, ...\<close>
  below \<open>m = min(50, len(result), len(chunk))\<close> at which the lowercased last \<open>k\<close>
  characters of \<open>result\<close> equal the lowercased first \<open>k\<close> characters of \<open>chunk\<close>.
\<close>

definition matching_overlaps :: "(ustr \<Rightarrow> ustr) \<Rightarrow> ustr \<Rightarrow> ustr \<Rightarrow> nat set" where
  "matching_overlaps lower result chunk =
     {k. 10 < k \<and> k \<le> min 50 (min (length result) (length chunk)) \<and>
         5 dvd (min 50 (min (length result) (length chunk)) - k) \<and>
         lower (drop (length result - k) result) = lower (take k chunk)}"

section \<open>The orchestrator (\<open>InMemoryVectorStore\<close>, \<open>RAGTranslationPipeline\<close>)\<close>

text \<open>
  What lies outside the module is collected in one record: Python's \<open>hash\<close> and
  \<open>str.lower\<close>, the table of decimal digits behind \<open>\d\<close> and \<open>int\<close>, the MD5 digest
  behind the cache key, and the endpoint that answers \<open>requests.post\<close>.
\<close>

record 'k env =
  py_hash :: "ustr \<Rightarrow> int"
  str_lower :: "ustr \<Rightarrow> ustr"
  decimal :: "nat \<Rightarrow> nat option"
  md5 :: "ustr \<Rightarrow> 'k"
  post :: "nat \<Rightarrow> prompt \<Rightarrow> http_outcome"

text \<open>
  The vector store. The field \<open>chunks\<close> of the class is \<open>stored_chunks\<close> here. \<open>search\<close> and
  the retriever are not called by the translation runs and are left out.
\<close>

record vector_store =
  stored_chunks :: "document_chunk list"
  index_built :: bool

definition clear :: "vector_store \<Rightarrow> vector_store" where
  "clear store = store\<lparr>stored_chunks := [], index_built := False\<rparr>"

text \<open>
  \<open>add_chunks\<close>: an exception of \<open>embed\<close> leaves the chunks added so far in the store and
  \<open>index_built\<close> as it was.
\<close>

fun add_chunks ::
  "(ustr \<Rightarrow> int) \<Rightarrow> (ustr \<Rightarrow> ustr) \<Rightarrow> int \<Rightarrow> vector_store \<Rightarrow> document_chunk list
     \<Rightarrow> error option \<times> vector_store" where
  "add_chunks hash lower dim' store [] = (None, store\<lparr>index_built := True\<rparr>)"
| "add_chunks hash lower dim' store (chunk # rest) =
     (case embedding chunk of
        Some v \<Rightarrow>
          add_chunks hash lower dim' (store\<lparr>stored_chunks := stored_chunks store @ [chunk]\<rparr>) rest
      | None \<Rightarrow>
          (case embed hash lower dim' (text' chunk) of
             Inl e \<Rightarrow> (Some e, store)
           | Inr v \<Rightarrow>
               add_chunks hash lower dim'
                 (store\<lparr>stored_chunks := stored_chunks store @ [chunk\<lparr>embedding := Some v\<rparr>]\<rparr>)
                 rest))"

text \<open>
  The pipeline object: the vector store (with the embedder of dimension 256), the
  generation client and the cache, whose values are what \<open>generate\<close> returned as text
  (\<open>None\<close> can be stored). The field \<open>cache\<close> of the class is \<open>cache'\<close> here. The
  retriever, the chunker and the quality object have no state.
\<close>

record 'k rag_pipeline =
  vector_store :: vector_store
  generator :: gemini_generator
  cache' :: "('k, ustr option) translation_cache"

definition CACHE_SIZE :: int where
  "CACHE_SIZE = 100"

definition RAGTranslationPipeline :: "ustr option \<Rightarrow> 'k rag_pipeline" where
  "RAGTranslationPipeline key =
     \<lparr>vector_store = \<lparr>stored_chunks = [], index_built = False\<rparr>,
      generator = GeminiGenerator key,
      cache' = TranslationCache CACHE_SIZE\<rparr>"

text \<open>
  The metadata of a run. \<open>processing_time_ms\<close>, \<open>quality_coverage\<close> and the \<open>hit_rate\<close> of
  the cache statistics (a clock and two float quotients) are left out; a list that the
  code replaces by \<open>None\<close> when it is empty is an option. \<open>No_text\<close> is the dictionary
  \<open>{"error": "No text to translate", "chunks": 0}\<close>.
\<close>

record run_metadata =
  total_chunks :: nat
  successful_chunks :: nat
  failed_chunks :: nat
  cached_chunks :: nat
  errors :: "(nat \<times> ustr) list option"
  original_length :: nat
  translated_length :: nat
  quality_issues :: "ustr list option"
  cache_size :: nat
  cache_hits :: nat
  cache_misses :: nat
  api_requests :: nat

datatype metadata = No_text | Metadata run_metadata

definition none_if_empty :: "'a list \<Rightarrow> 'a list option" where
  "none_if_empty xs = (if xs = [] then None else Some xs)"

text \<open>\<open>s[-200:]\<close> and the string of a value that counted as true.\<close>

definition last200 :: "ustr \<Rightarrow> ustr" where
  "last200 s = drop (length s - 200) s"

definition str_of :: "ustr option \<Rightarrow> ustr" where
  "str_of v = (case v of Some s \<Rightarrow> s | None \<Rightarrow> [])"

text \<open>
  The local variables of the loop of \<open>translate_document\<close>: \<open>translated_chunks\<close>,
  \<open>errors\<close> (chunk id and message), \<open>cached_count\<close> and \<open>previous_translation\<close>.
\<close>

type_synonym progress = "ustr list \<times> (nat \<times> ustr) list \<times> nat \<times> ustr"

text \<open>
  The body of the loop after the cache missed: prompt, generation, and the two branches
  of \<open>if error\<close>. An error that is the empty string counts as false, and the code then
  takes the text, which is \<open>None\<close>: it is appended and cached, and
  \<open>translation[-200:]\<close> raises \<open>TypeError\<close>. The progress callback and the pauses are
  left out.
\<close>

definition generate_chunk ::
  "'k env \<Rightarrow> ustr \<Rightarrow> ustr \<Rightarrow> nat \<Rightarrow> document_chunk \<Rightarrow> progress \<Rightarrow> 'k rag_pipeline
     \<Rightarrow> error option \<times> progress \<times> 'k rag_pipeline" where
  "generate_chunk env source_lang target_lang i chunk pr p =
     (case pr of (translated_chunks, errs, cached_count, previous_translation) \<Rightarrow>
        (let context = (if 0 < i then Some previous_translation else None);
             prompt = get_translation_prompt (text' chunk) source_lang target_lang context
         in case generate (post env) (generator p) prompt of
              ((translation, err), g) \<Rightarrow>
                if truthy err then
                  (None,
                   (translated_chunks @ [failure_placeholder (text' chunk)],
                    errs @ [(id' chunk, str_of err)], cached_count, previous_translation),
                   p\<lparr>generator := g\<rparr>)
                else
                  (case set_text (md5 env) (cache' p) (text' chunk) translation of
                     Inl e \<Rightarrow> (Some e, pr, p\<lparr>generator := g\<rparr>)
                   | Inr c \<Rightarrow>
                       (case translation of
                          None \<Rightarrow> (Some TypeError, pr, p\<lparr>generator := g, cache' := c\<rparr>)
                        | Some t \<Rightarrow>
                            (None,
                             (translated_chunks @ [t], errs, cached_count, last200 t),
                             p\<lparr>generator := g, cache' := c\<rparr>)))))"

text \<open>
  The body of the loop: the cache first. The lookup raises for a chunk whose text
  cannot be encoded, before anything is changed.
\<close>

definition translate_chunk ::
  "'k env \<Rightarrow> ustr \<Rightarrow> ustr \<Rightarrow> nat \<Rightarrow> document_chunk \<Rightarrow> progress \<Rightarrow> 'k rag_pipeline
     \<Rightarrow> error option \<times> progress \<times> 'k rag_pipeline" where
  "translate_chunk env source_lang target_lang i chunk pr p =
     (case pr of (translated_chunks, errs, cached_count, previous_translation) \<Rightarrow>
        (case get_text (md5 env) (cache' p) (text' chunk) of
           Inl e \<Rightarrow> (Some e, pr, p)
         | Inr (found, c) \<Rightarrow>
             (let cached = (case found of None \<Rightarrow> None | Some v \<Rightarrow> v) in
              if truthy cached then
                (None,
                 (translated_chunks @ [str_of cached], errs, cached_count + 1,
                  last200 (str_of cached)),
                 p\<lparr>cache' := c\<rparr>)
              else generate_chunk env source_lang target_lang i chunk pr (p\<lparr>cache' := c\<rparr>))))"

text \<open>\<open>for i, chunk in enumerate(chunks)\<close>; an exception ends the loop.\<close>

fun translate_chunks ::
  "'k env \<Rightarrow> ustr \<Rightarrow> ustr \<Rightarrow> nat \<Rightarrow> document_chunk list \<Rightarrow> progress \<Rightarrow> 'k rag_pipeline
     \<Rightarrow> error option \<times> progress \<times> 'k rag_pipeline" where
  "translate_chunks env source_lang target_lang i [] pr p = (None, pr, p)"
| "translate_chunks env source_lang target_lang i (chunk # rest) pr p =
     (case translate_chunk env source_lang target_lang i chunk pr p of
        (Some e, pr', p') \<Rightarrow> (Some e, pr', p')
      | (None, pr', p') \<Rightarrow> translate_chunks env source_lang target_lang (i + 1) rest pr' p')"

definition make_metadata ::
  "'k env \<Rightarrow> ustr \<Rightarrow> nat \<Rightarrow> progress \<Rightarrow> 'k rag_pipeline \<Rightarrow> ustr \<Rightarrow> run_metadata" where
  "make_metadata env s total' pr p final_text =
     (case pr of (translated_chunks, errs, cached_count, previous_translation) \<Rightarrow>
        \<lparr>total_chunks = total',
         successful_chunks = total' - length errs,
         failed_chunks = length errs,
         cached_chunks = cached_count,
         errors = none_if_empty errs,
         original_length = length s,
         translated_length = length final_text,
         quality_issues = none_if_empty (detect_issues final_text),
         cache_size = length (cache (cache' p)),
         cache_hits = hits (cache' p),
         cache_misses = misses (cache' p),
         api_requests = request_count (generator p)\<rparr>)"

text \<open>
  \<open>translate_document\<close> returns the text and the metadata, or raises; the pipeline
  object keeps its changes either way.
\<close>

definition translate_document ::
  "'k env \<Rightarrow> 'k rag_pipeline \<Rightarrow> ustr \<Rightarrow> ustr \<Rightarrow> ustr
     \<Rightarrow> (error + ustr \<times> metadata) \<times> 'k rag_pipeline" where
  "translate_document env p s source_lang target_lang =
     (let chunks = chunk_document (decimal env) s CHUNK_SIZE OVERLAP_SIZE;
          total' = length chunks
      in if total' = 0 then (Inr ([], No_text), p)
         else
           (case add_chunks (py_hash env) (str_lower env) 256 (clear (vector_store p)) chunks of
              (Some e, store) \<Rightarrow> (Inl e, p\<lparr>vector_store := store\<rparr>)
            | (None, store) \<Rightarrow>
                (case translate_chunks env source_lang target_lang 0 chunks ([], [], 0, [])
                        (p\<lparr>vector_store := store\<rparr>) of
                   (Some e, pr, p') \<Rightarrow> (Inl e, p')
                 | (None, pr, p') \<Rightarrow>
                     (let final_text = combine_chunks (str_lower env) (fst pr)
                      in (Inr (final_text, Metadata (make_metadata env s total' pr p' final_text)),
                          p')))))"

subsection \<open>Streaming mode\<close>

text \<open>
  The dictionaries that \<open>translate_streaming\<close> yields, by their \<open>type\<close>: \<open>error\<close> (message),
  \<open>start\<close> (total chunks, total characters), \<open>progress\<close> (current, total; the
  percentage, a float computation, and the status text are left out), \<open>chunk_complete\<close>
  (chunk id, cached, preview), \<open>chunk_error\<close> (chunk id, error) and \<open>complete\<close>
  (translated text and the size, hits and misses of the cache statistics).
\<close>

datatype event =
    Error_event ustr
  | Start nat nat
  | Progress nat nat
  | Chunk_complete nat bool ustr
  | Chunk_error nat ustr
  | Complete ustr nat nat nat

definition preview :: "ustr \<Rightarrow> ustr" where
  "preview s = (if 100 < length s then take 100 s @ lit ''...'' else s)"

text \<open>
  The local variables of the loop: \<open>translated_parts\<close> and \<open>previous_translation\<close>. A
  step gives the events it yields, the exception it raises if any, and the new state.
\<close>

type_synonym stream_progress = "ustr list \<times> ustr"

definition stream_generate_chunk ::
  "'k env \<Rightarrow> ustr \<Rightarrow> ustr \<Rightarrow> nat \<Rightarrow> document_chunk \<Rightarrow> stream_progress \<Rightarrow> 'k rag_pipeline
     \<Rightarrow> event list \<times> error option \<times> stream_progress \<times> 'k rag_pipeline" where
  "stream_generate_chunk env source_lang target_lang i chunk pr p =
     (case pr of (translated_parts, previous_translation) \<Rightarrow>
        (let context = (if 0 < i then Some previous_translation else None);
             prompt = get_translation_prompt (text' chunk) source_lang target_lang context
         in case generate (post env) (generator p) prompt of
              ((translation, err), g) \<Rightarrow>
                if truthy err then
                  ([Chunk_error (id' chunk) (str_of err)], None,
                   (translated_parts @ [text' chunk], previous_translation),
                   p\<lparr>generator := g\<rparr>)
                else
                  (case set_text (md5 env) (cache' p) (text' chunk) translation of
                     Inl e \<Rightarrow> ([], Some e, pr, p\<lparr>generator := g\<rparr>)
                   | Inr c \<Rightarrow>
                       (case translation of
                          None \<Rightarrow> ([], Some TypeError, pr, p\<lparr>generator := g, cache' := c\<rparr>)
                        | Some t \<Rightarrow>
                            ([Chunk_complete (id' chunk) False (preview t)], None,
                             (translated_parts @ [t], last200 t),
                             p\<lparr>generator := g, cache' := c\<rparr>)))))"

definition stream_chunk ::
  "'k env \<Rightarrow> ustr \<Rightarrow> ustr \<Rightarrow> nat \<Rightarrow> nat \<Rightarrow> document_chunk \<Rightarrow> stream_progress \<Rightarrow> 'k rag_pipeline
     \<Rightarrow> event list \<times> error option \<times> stream_progress \<times> 'k rag_pipeline" where
  "stream_chunk env source_lang target_lang total' i chunk pr p =
     (case pr of (translated_parts, previous_translation) \<Rightarrow>
        (case get_text (md5 env) (cache' p) (text' chunk) of
           Inl e \<Rightarrow> ([Progress (i + 1) total'], Some e, pr, p)
         | Inr (found, c) \<Rightarrow>
             (let cached = (case found of None \<Rightarrow> None | Some v \<Rightarrow> v) in
              if truthy cached then
                ([Progress (i + 1) total', Chunk_complete (id' chunk) True (preview (str_of cached))],
                 None,
                 (translated_parts @ [str_of cached], last200 (str_of cached)),
                 p\<lparr>cache' := c\<rparr>)
              else
                (case stream_generate_chunk env source_lang target_lang i chunk pr (p\<lparr>cache' := c\<rparr>) of
                   (events, e, pr', p') \<Rightarrow> (Progress (i + 1) total' # events, e, pr', p')))))"

fun stream_chunks ::
  "'k env \<Rightarrow> ustr \<Rightarrow> ustr \<Rightarrow> nat \<Rightarrow> nat \<Rightarrow> document_chunk list \<Rightarrow> stream_progress
     \<Rightarrow> 'k rag_pipeline \<Rightarrow> event list \<times> error option \<times> stream_progress \<times> 'k rag_pipeline" where
  "stream_chunks env source_lang target_lang total' i [] pr p = ([], None, pr, p)"
| "stream_chunks env source_lang target_lang total' i (chunk # rest) pr p =
     (case stream_chunk env source_lang target_lang total' i chunk pr p of
        (events, Some e, pr', p') \<Rightarrow> (events, Some e, pr', p')
      | (events, None, pr', p') \<Rightarrow>
          (case stream_chunks env source_lang target_lang total' (i + 1) rest pr' p' of
             (events', e, pr'', p'') \<Rightarrow> (events @ events', e, pr'', p'')))"

text \<open>
  \<open>translate_streaming\<close> is a generator: the result is the sequence of events a consumer
  gets that reads to the end, the exception that ends the sequence if one is raised,
  and the pipeline object after that. A consumer that stops earlier gets a prefix.
\<close>

definition translate_streaming ::
  "'k env \<Rightarrow> 'k rag_pipeline \<Rightarrow> ustr \<Rightarrow> ustr \<Rightarrow> ustr
     \<Rightarrow> (event list \<times> error option) \<times> 'k rag_pipeline" where
  "translate_streaming env p s source_lang target_lang =
     (let chunks = chunk_document (decimal env) s CHUNK_SIZE OVERLAP_SIZE;
          total' = length chunks
      in if total' = 0 then (([Error_event (lit ''No text to translate'')], None), p)
         else
           (case add_chunks (py_hash env) (str_lower env) 256 (clear (vector_store p)) chunks of
              (Some e, store) \<Rightarrow> (([Start total' (length s)], Some e), p\<lparr>vector_store := store\<rparr>)
            | (None, store) \<Rightarrow>
                (case stream_chunks env source_lang target_lang total' 0 chunks ([], [])
                        (p\<lparr>vector_store := store\<rparr>) of
                   (events, Some e, pr, p') \<Rightarrow> ((Start total' (length s) # events, Some e), p')
                 | (events, None, pr, p') \<Rightarrow>
                     ((Start total' (length s) # events @
                         [Complete (combine_chunks (str_lower env) (fst pr))
                            (length (cache (cache' p'))) (hits (cache' p')) (misses (cache' p'))],
                       None),
                      p'))))"

subsection \<open>The public entry points\<close>

text \<open>
  The module keeps one pipeline in the global \<open>_pipeline\<close>. To tell objects apart the
  process has a store of pipeline objects, addressed by their position, and the global
  holds an address or \<open>None\<close>. \<open>key\<close> is what \<open>_get_api_key()\<close> finds when a pipeline is
  built. A reference of Python always points to an object: \<open>wf_process\<close>.
\<close>

record 'k process =
  objects :: "'k rag_pipeline list"
  global_pipeline :: "nat option"

definition new_process :: "'k process" where
  "new_process = \<lparr>objects = [], global_pipeline = None\<rparr>"

definition wf_process :: "'k process \<Rightarrow> bool" where
  "wf_process pr = (case global_pipeline pr of None \<Rightarrow> True | Some a \<Rightarrow> a < length (objects pr))"

definition get_rag_translator :: "ustr option \<Rightarrow> 'k process \<Rightarrow> nat \<times> 'k process" where
  "get_rag_translator key pr =
     (case global_pipeline pr of
        None \<Rightarrow>
          (length (objects pr),
           pr\<lparr>objects := objects pr @ [RAGTranslationPipeline key],
              global_pipeline := Some (length (objects pr))\<rparr>)
      | Some a \<Rightarrow> (a, pr))"

definition translate_with_rag ::
  "'k env \<Rightarrow> ustr option \<Rightarrow> 'k process \<Rightarrow> ustr \<Rightarrow> ustr \<Rightarrow> ustr
     \<Rightarrow> (error + ustr \<times> metadata) \<times> 'k process" where
  "translate_with_rag env key pr s source_lang target_lang =
     (case get_rag_translator key pr of
        (a, pr1) \<Rightarrow>
          (case translate_document env (objects pr1 ! a) s source_lang target_lang of
             (result, p') \<Rightarrow> (result, pr1\<lparr>objects := (objects pr1)[a := p']\<rparr>)))"

subsection \<open>An environment for the examples\<close>

text \<open>
  ASCII text, the cache keyed by the text itself, and an endpoint given as a parameter.
  \<open>always_ok\<close> answers every POST with status 200 and the text \<open>Salam\<close>.
\<close>

definition example_env :: "(nat \<Rightarrow> prompt \<Rightarrow> http_outcome) \<Rightarrow> ustr env" where
  "example_env endpoint =
     \<lparr>py_hash = sum_hash, str_lower = ascii_lower, decimal = ascii_digit, md5 = (\<lambda>t. t),
      post = endpoint\<rparr>"

definition always_ok :: "nat \<Rightarrow> prompt \<Rightarrow> http_outcome" where
  "always_ok n p = Response 200 [] (Candidates_text (lit ''Salam''))"

subsection \<open>State that is carried over\<close>

text \<open>
  \<open>carried_over env p p'\<close>: from the pipeline state \<open>p\<close> to \<open>p'\<close> the cache was only
  used through \<open>get\<close> and \<open>set\<close>, the API key is the same, and the counters of the
  generation client did not go down.
\<close>

definition carried_over :: "'k env \<Rightarrow> 'k rag_pipeline \<Rightarrow> 'k rag_pipeline \<Rightarrow> bool" where
  "carried_over env p p' =
     (cache_steps (md5 env) (cache' p) (cache' p') \<and>
      api_key (generator p') = api_key (generator p) \<and>
      request_count (generator p) \<le> request_count (generator p') \<and>
      posts (generator p) \<le> posts (generator p'))"

text \<open>
  For the examples: the metadata of a run that returned some, a text of one chunk and a
  text of two chunks (1199 times \<open>a\<close>, a full stop, a space and \<open>b.\<close>).
\<close>

definition run_metadata_of :: "error + ustr \<times> metadata \<Rightarrow> run_metadata option" where
  "run_metadata_of r = (case r of Inr (t, Metadata m) \<Rightarrow> Some m | _ \<Rightarrow> None)"

definition result_text :: "error + ustr \<times> metadata \<Rightarrow> ustr option" where
  "result_text r = (case r of Inr (t, m) \<Rightarrow> Some t | Inl e \<Rightarrow> None)"

definition two_chunk_text :: ustr where
  "two_chunk_text = replicate 1199 97 @ lit ''. b.''"

definition hello_chunk :: document_chunk where
  "hello_chunk =
     \<lparr>id' = 0, text' = lit ''Hello.'', start_pos = 0, end_pos = 7, page_number = Some 1,
      embedding = None\<rparr>"


text \<open>
  A pipeline built without an API key, after one run of \<open>translate_document\<close> on the text
  \<open>Hello.\<close>.
\<close>

definition keyless_after_hello :: "ustr rag_pipeline" where
  "keyless_after_hello =
     snd (translate_document (example_env always_ok) (RAGTranslationPipeline None)
            (lit ''Hello.'') (lit ''Urdu'') (lit ''English''))"

text \<open>
  The process after one call of \<open>translate_with_rag\<close> on the text \<open>Hello.\<close>, with the API
  key \<open>k\<close> and the endpoint \<open>always_ok\<close>.
\<close>

definition after_hello :: "ustr process" where
  "after_hello =
     snd (translate_with_rag (example_env always_ok) (Some (lit ''k'')) new_process
            (lit ''Hello.'') (lit ''Urdu'') (lit ''English''))"
section \<open>Trimming\<close>

lemma isspace_space: "isspace 32"
  by (simp add: isspace_def)

lemma lit_space: "lit '' '' = [32]"
  by (simp add: lit_def)

lemma rstrip_prefix: "prefix (rstrip s) s"
proof -
  have "rev s = takeWhile isspace (rev s) @ dropWhile isspace (rev s)" by simp
  then have "s = rev (dropWhile isspace (rev s)) @ rev (takeWhile isspace (rev s))"
    by (metis rev_append rev_rev_ident)
  then show ?thesis unfolding rstrip_def by (metis prefixI)
qed

lemma length_strip_le: "length (strip s) \<le> length s"
proof -
  have "length (strip s) \<le> length (lstrip s)"
    unfolding strip_def by (rule prefix_length_le[OF rstrip_prefix])
  also have "... \<le> length s" unfolding lstrip_def by (rule length_dropWhile_le)
  finally show ?thesis .
qed

lemma strip_trimmed: "strip s \<noteq> [] \<Longrightarrow> trimmed (strip s)"
proof -
  assume ne: "strip s \<noteq> []"
  let ?y = "lstrip s"
  have y: "?y \<noteq> []" using ne by (auto simp: strip_def rstrip_def)
  then have hy: "\<not> isspace (hd ?y)" unfolding lstrip_def by (rule hd_dropWhile)
  obtain z where z: "?y = strip s @ z" using rstrip_prefix[of ?y] by (auto simp: strip_def prefix_def)
  with ne have "hd (strip s) = hd ?y" by (metis hd_append2)
  with hy have h: "\<not> isspace (hd (strip s))" by simp
  let ?d = "dropWhile isspace (rev ?y)"
  have d: "?d \<noteq> []" using ne by (simp add: strip_def rstrip_def)
  then have "\<not> isspace (hd ?d)" by (rule hd_dropWhile)
  moreover have "last (strip s) = hd ?d" using d by (simp add: strip_def rstrip_def last_rev)
  ultimately show ?thesis using ne h by (simp add: trimmed_def)
qed

lemma strip_empty_all_space: "strip s = [] \<Longrightarrow> \<forall>c \<in> set s. isspace c"
proof -
  assume e: "strip s = []"
  then have a: "\<forall>c \<in> set (lstrip s). isspace c"
    by (simp add: strip_def rstrip_def dropWhile_eq_Nil_conv)
  have "lstrip s = []"
  proof (rule ccontr)
    assume n: "lstrip s \<noteq> []"
    then have "\<not> isspace (hd (lstrip s))" unfolding lstrip_def by (rule hd_dropWhile)
    with a n show False by (meson hd_in_set)
  qed
  then show ?thesis by (simp add: lstrip_def dropWhile_eq_Nil_conv)
qed

lemma lstrip_before_trimmed: "trimmed s \<Longrightarrow> lstrip (p @ s @ q) = lstrip p @ s @ q"
proof (cases "\<forall>c \<in> set p. isspace c")
  case True
  assume t: "trimmed s"
  then obtain c cs where s: "s = c # cs" "\<not> isspace c" by (cases s) (auto simp: trimmed_def)
  from True have "lstrip (p @ s @ q) = lstrip (s @ q)" by (simp add: lstrip_def dropWhile_append2)
  moreover from True have "lstrip p = []" by (simp add: lstrip_def)
  ultimately show ?thesis using s by (simp add: lstrip_def)
next
  case False
  then obtain c where "c \<in> set p" "\<not> isspace c" by blast
  then show ?thesis by (simp add: lstrip_def dropWhile_append1)
qed

lemma rstrip_after_trimmed: "trimmed s \<Longrightarrow> rstrip (p @ s @ q) = p @ s @ rstrip q"
proof (cases "\<forall>c \<in> set q. isspace c")
  case True
  assume t: "trimmed s"
  then have ne: "s \<noteq> []" and nl: "\<not> isspace (last s)" by (auto simp: trimmed_def)
  from ne have "rev s = last s # rev (butlast s)" by (simp add: rev_eq_Cons_iff)
  then obtain r where r: "rev s = last s # r" by blast
  from True have a: "\<forall>c \<in> set (rev q). isspace c" by simp
  have "dropWhile isspace (rev q @ rev s @ rev p) = dropWhile isspace (rev s @ rev p)"
    by (rule dropWhile_append2) (use a in simp)
  also have "... = rev s @ rev p" unfolding r using nl by simp
  finally have "rstrip (p @ s @ q) = p @ s" by (simp add: rstrip_def)
  moreover from a have "rstrip q = []" by (simp add: rstrip_def)
  ultimately show ?thesis by simp
next
  case False
  then obtain c where "c \<in> set (rev q)" "\<not> isspace c" by auto
  then have "dropWhile isspace (rev q @ rev s @ rev p) = dropWhile isspace (rev q) @ rev s @ rev p"
    by (simp add: dropWhile_append1)
  then show ?thesis by (simp add: rstrip_def)
qed

lemma strip_around_trimmed: "trimmed s \<Longrightarrow> strip (p @ s @ q) = lstrip p @ s @ rstrip q"
  by (simp add: strip_def lstrip_before_trimmed rstrip_after_trimmed)

lemma strip_space_end: "strip (body @ [32]) = strip body"
proof (cases "strip body = []")
  case True
  then have "\<forall>c \<in> set body. isspace c" by (rule strip_empty_all_space)
  then have "lstrip (body @ [32]) = []" by (simp add: lstrip_def isspace_space)
  with True show ?thesis by (simp add: strip_def rstrip_def)
next
  case False
  then have t: "trimmed (strip body)" by (rule strip_trimmed)
  obtain p q where pq: "body = p @ strip body @ q" "lstrip p = []" "rstrip q = []"
  proof -
    let ?y = "lstrip body"
    have 1: "body = takeWhile isspace body @ ?y" by (simp add: lstrip_def)
    obtain z where z: "?y = strip body @ z" using rstrip_prefix[of ?y] by (auto simp: strip_def prefix_def)
    have "rstrip ?y = strip body" by (simp add: strip_def)
    with z t have "strip body @ rstrip z = strip body"
      using rstrip_after_trimmed[of "strip body" "[]" z] by simp
    then have 2: "rstrip z = []" by simp
    have 3: "lstrip (takeWhile isspace body) = []"
      by (simp add: lstrip_def dropWhile_eq_Nil_conv) (meson set_takeWhileD)
    from 1 z have "body = takeWhile isspace body @ strip body @ z" by simp
    with 2 3 that show ?thesis by blast
  qed
  have "rstrip (q @ [32]) = []" using pq(3) by (simp add: rstrip_def isspace_space)
  then have "strip (p @ strip body @ (q @ [32])) = strip body"
    using strip_around_trimmed[OF t, of p "q @ [32]"] pq(2) by simp
  with pq(1) show ?thesis by (metis append.assoc)
qed

section \<open>The cache is a bounded LRU\<close>

lemma keys_od_setitem:
  "map fst (od_setitem k v d) = (if k \<in> set (map fst d) then map fst d else map fst d @ [k])"
  by (induction d) auto

lemma keys_filter: "map fst (filter (\<lambda>e. fst e \<noteq> k) d) = filter (\<lambda>x. x \<noteq> k) (map fst d)"
  by (induction d) auto

lemma filter_neq_absent: "k \<notin> set xs \<Longrightarrow> filter (\<lambda>x. x \<noteq> k) xs = xs"
  by (induction xs) auto

lemma length_filter_distinct:
  "distinct xs \<Longrightarrow> k \<in> set xs \<Longrightarrow> Suc (length (filter (\<lambda>x. x \<noteq> k) xs)) = length xs"
  by (induction xs) (auto simp: filter_neq_absent)

lemma od_setitem_fresh: "k \<notin> fst ` set d \<Longrightarrow> od_setitem k v d = d @ [(k, v)]"
  by (induction d) auto

lemma last_use_snoc:
  "last_use hk (h @ [x]) k = (if touches hk k x then Suc (length h) else last_use hk h k)"
  by (simp add: last_use_def)

lemma last_use_le: "last_use hk h k \<le> length h"
  unfolding last_use_def by (metis length_dropWhile_le length_rev)

lemma set_keys_append: "set_keys hk (a @ b) = set_keys hk a @ set_keys hk b"
  by (induction hk a rule: set_keys.induct) auto

lemma get_inv:
  assumes "lru_inv hk h c"
  shows "lru_inv hk (h @ [Op_get t]) (snd (cache_get hk c t))" 
    and "max_size (snd (cache_get hk c t)) = max_size c"
proof -
  let ?K = "map fst (cache c)"
  let ?h = "h @ [Op_get t]"
  show "max_size (snd (cache_get hk c t)) = max_size c"
    by (simp add: cache_get_def Let_def split: option.splits)
  show "lru_inv hk ?h (snd (cache_get hk c t))"
  proof (cases "map_of (cache c) (hk t)")
    case None
    then have nk: "hk t \<notin> set ?K" by (simp add: map_of_eq_None_iff)
    have same: "\<And>a. a \<in> set ?K \<Longrightarrow> last_use hk ?h a = last_use hk h a"
      using nk by (auto simp: last_use_snoc)
    have "sorted_wrt (\<lambda>a b. last_use hk ?h a < last_use hk ?h b) ?K"
      using assms same unfolding lru_inv_def
      by (metis (no_types, lifting) sorted_wrt_iff_nth_less nth_mem sorted_wrt_mono_rel)
    with None assms show ?thesis
      by (auto simp: lru_inv_def cache_get_def set_keys_append)
  next
    case (Some v)
    then have ik: "hk t \<in> set ?K" by (metis map_of_eq_None_iff option.distinct(1) set_map)
    let ?F = "filter (\<lambda>x. x \<noteq> hk t) ?K"
    have d: "distinct ?K" using assms by (simp add: lru_inv_def)
    have len: "Suc (length ?F) = length ?K" using length_filter_distinct[OF d ik] .
    have s0: "sorted_wrt (\<lambda>a b. last_use hk h a < last_use hk h b) ?F"
      using assms by (simp add: lru_inv_def sorted_wrt_filter)
    have s1: "sorted_wrt (\<lambda>a b. last_use hk ?h a < last_use hk ?h b) ?F"
      by (rule sorted_wrt_mono_rel[OF _ s0]) (auto simp: last_use_snoc)
    have s2: "\<forall>a\<in>set ?F. last_use hk ?h a < last_use hk ?h (hk t)"
      using last_use_le[of hk h] by (auto simp: last_use_snoc less_Suc_eq_le)
    have "sorted_wrt (\<lambda>a b. last_use hk ?h a < last_use hk ?h b) (?F @ [hk t])"
      using s1 s2 by (simp add: sorted_wrt_append)
    moreover have "int (length (?F @ [hk t])) \<le> max_size c"
      using len assms by (simp add: lru_inv_def)
    moreover have "distinct (?F @ [hk t])" using d by simp
    moreover have "set (?F @ [hk t]) \<subseteq> set (set_keys hk ?h)"
      using assms ik by (auto simp: lru_inv_def set_keys_append)
    ultimately show ?thesis using Some
      by (simp add: lru_inv_def cache_get_def keys_filter Let_def comp_def)
  qed
qed

lemma set_inv:
  assumes "lru_inv hk h c" and "0 < max_size c" and "hk t \<notin> set (set_keys hk h)"
  shows "\<exists>c'. cache_set hk c t v = Inr c' \<and> lru_inv hk (h @ [Op_set t v]) c' \<and> max_size c' = max_size c"
proof -
  let ?K = "map fst (cache c)"
  let ?h = "h @ [Op_set t v]"
  have nk: "hk t \<notin> set ?K" using assms by (auto simp: lru_inv_def)
  have s0: "sorted_wrt (\<lambda>a b. last_use hk h a < last_use hk h b) ?K"
    using assms by (simp add: lru_inv_def)
  have s1: "sorted_wrt (\<lambda>a b. last_use hk ?h a < last_use hk ?h b) ?K"
    by (rule sorted_wrt_mono_rel[OF _ s0]) (use nk in \<open>auto simp: last_use_snoc\<close>)
  have s2: "\<forall>a\<in>set ?K. last_use hk ?h a < last_use hk ?h (hk t)"
    using last_use_le[of hk h] nk by (auto simp: last_use_snoc less_Suc_eq_le)
  show ?thesis
  proof (cases "int (length (cache c)) \<ge> max_size c")
    case False
    then show ?thesis using assms nk s1 s2
      by (auto simp: cache_set_def lru_inv_def od_setitem_fresh sorted_wrt_append set_keys_append)
  next
    case True
    then obtain e es where ce: "cache c = e # es" using assms(2) by (cases "cache c") auto
    have nk': "hk t \<notin> set (map fst es)" using nk ce by simp
    have "sorted_wrt (\<lambda>a b. last_use hk ?h a < last_use hk ?h b) (map fst es @ [hk t])"
      using s1 s2 ce by (simp add: sorted_wrt_append)
    then show ?thesis using True assms nk' ce
      by (auto simp: cache_set_def lru_inv_def od_setitem_fresh od_popitem_first_def set_keys_append)
  qed
qed

lemma run_ops_lru:
  "lru_inv hk h c \<Longrightarrow> 0 < max_size c \<Longrightarrow> distinct (set_keys hk (h @ ops)) \<Longrightarrow>
   \<exists>c'. run_ops hk c ops = Inr c' \<and> lru_inv hk (h @ ops) c' \<and> max_size c' = max_size c"
proof (induction ops arbitrary: h c)
  case Nil
  then show ?case by simp
next
  case (Cons x ops)
  show ?case
  proof (cases x)
    case (Op_get t)
    have "lru_inv hk (h @ [x]) (snd (cache_get hk c t))" "max_size (snd (cache_get hk c t)) = max_size c"
      using get_inv[OF Cons.prems(1)] Op_get by auto
    moreover have "distinct (set_keys hk ((h @ [x]) @ ops))" using Cons.prems(3) by simp
    ultimately show ?thesis using Cons.IH[of "h @ [x]" "snd (cache_get hk c t)"] Cons.prems(2) Op_get
      by auto
  next
    case (Op_set t v)
    have "hk t \<notin> set (set_keys hk h)" using Cons.prems(3) Op_set by (auto simp: set_keys_append)
    from set_inv[OF Cons.prems(1,2) this, of v]
    obtain c' where c': "cache_set hk c t v = Inr c'" "lru_inv hk (h @ [x]) c'" "max_size c' = max_size c"
      using Op_set by auto
    moreover have "distinct (set_keys hk ((h @ [x]) @ ops))" using Cons.prems(3) by simp
    ultimately show ?thesis using Cons.IH[of "h @ [x]" c'] Cons.prems(2) Op_set by auto
  qed
qed

lemma basic_get:
  assumes "distinct (map fst (cache c))" and "int (length (cache c)) \<le> max_size c"
  shows "distinct (map fst (cache (snd (cache_get hk c t)))) \<and>
         int (length (cache (snd (cache_get hk c t)))) \<le> max_size c \<and>
         max_size (snd (cache_get hk c t)) = max_size c"
proof (cases "map_of (cache c) (hk t)")
  case None
  then show ?thesis using assms by (simp add: cache_get_def)
next
  case (Some v)
  then have ik: "hk t \<in> set (map fst (cache c))"
    by (metis map_of_eq_None_iff option.distinct(1) set_map)
  have "Suc (length (filter (\<lambda>x. x \<noteq> hk t) (map fst (cache c)))) = length (cache c)"
    using length_filter_distinct[OF assms(1) ik] by simp
  then have "Suc (length (filter (\<lambda>e. fst e \<noteq> hk t) (cache c))) = length (cache c)"
    by (metis keys_filter length_map)
  then show ?thesis using Some assms
    by (simp add: cache_get_def Let_def keys_filter)
qed

lemma length_od_setitem: "length (od_setitem k v d) \<le> Suc (length d)"
  by (induction d) auto

lemma distinct_od_setitem: "distinct (map fst d) \<Longrightarrow> distinct (map fst (od_setitem k v d))"
  by (simp add: keys_od_setitem)

lemma basic_set:
  assumes "distinct (map fst (cache c))" and "int (length (cache c)) \<le> max_size c"
    and "0 < max_size c"
  shows "\<exists>c'. cache_set hk c t v = Inr c' \<and> distinct (map fst (cache c')) \<and>
           int (length (cache c')) \<le> max_size c \<and> max_size c' = max_size c"
proof (cases "int (length (cache c)) \<ge> max_size c")
  case False
  have "int (length (od_setitem (hk t) v (cache c))) \<le> max_size c"
    using False length_od_setitem[of "hk t" v "cache c"] by linarith
  then show ?thesis using False assms(1)
    by (simp add: cache_set_def distinct_od_setitem)
next
  case True
  then obtain e es where ce: "cache c = e # es" using assms(3) by (cases "cache c") auto
  have "int (length (od_setitem (hk t) v es)) \<le> max_size c"
    using assms(2) ce length_od_setitem[of "hk t" v es] by simp
  moreover have "distinct (map fst (od_setitem (hk t) v es))"
    using assms(1) ce by (simp add: distinct_od_setitem)
  ultimately show ?thesis using True ce
    by (simp add: cache_set_def od_popitem_first_def)
qed

lemma run_ops_bounded:
  "distinct (map fst (cache c)) \<Longrightarrow> int (length (cache c)) \<le> max_size c \<Longrightarrow> 0 < max_size c \<Longrightarrow>
   \<exists>c'. run_ops hk c ops = Inr c' \<and> distinct (map fst (cache c')) \<and>
        int (length (cache c')) \<le> max_size c \<and> max_size c' = max_size c"
proof (induction ops arbitrary: c)
  case Nil
  then show ?case by simp
next
  case (Cons x ops)
  show ?case
  proof (cases x)
    case (Op_get t)
    from basic_get[OF Cons.prems(1,2), of hk t] Cons.IH[of "snd (cache_get hk c t)"] Cons.prems(3)
    show ?thesis using Op_get by simp
  next
    case (Op_set t v)
    from basic_set[OF Cons.prems, of hk t v]
    obtain c' where c': "cache_set hk c t v = Inr c'" "distinct (map fst (cache c'))"
      "int (length (cache c')) \<le> max_size c" "max_size c' = max_size c" by blast
    from Cons.IH[of c'] c' Cons.prems(3) show ?thesis using Op_set by simp
  qed
qed

lemma run_ops_append:
  "run_ops hk c (a @ b) = (case run_ops hk c a of Inl e \<Rightarrow> Inl e | Inr c' \<Rightarrow> run_ops hk c' b)"
  by (induction hk c a rule: run_ops.induct) (auto split: sum.splits)

lemma cache_set_evicts_first:
  assumes "int (length (cache c)) = max_size c" and "0 < max_size c"
    and "hk t \<notin> fst ` set (cache c)"
  shows "cache_set hk c t v = Inr (c\<lparr>cache := tl (cache c) @ [(hk t, v)]\<rparr>)"
proof -
  obtain e es where ce: "cache c = e # es" using assms(1,2) by (cases "cache c") auto
  have "hk t \<notin> fst ` set es" using assms(3) ce by auto
  then show ?thesis using assms(1) ce
    by (simp add: cache_set_def od_popitem_first_def od_setitem_fresh)
qed

lemma fill_fresh:
  "int (length (cache c)) + int (length ts) \<le> max_size c \<Longrightarrow>
   distinct (map fst (cache c) @ map (\<lambda>p. hk (fst p)) ts) \<Longrightarrow>
   run_ops hk c (map (\<lambda>p. Op_set (fst p) (snd p)) ts) =
     Inr (c\<lparr>cache := cache c @ map (\<lambda>p. (hk (fst p), snd p)) ts\<rparr>)"
proof (induction ts arbitrary: c)
  case Nil
  then show ?case by simp
next
  case (Cons p ts)
  have fresh: "hk (fst p) \<notin> fst ` set (cache c)" using Cons.prems(2) by auto
  have step: "cache_set hk c (fst p) (snd p) = Inr (c\<lparr>cache := cache c @ [(hk (fst p), snd p)]\<rparr>)"
    using Cons.prems(1) fresh by (simp add: cache_set_def od_setitem_fresh)
  let ?c = "c\<lparr>cache := cache c @ [(hk (fst p), snd p)]\<rparr>"
  have "run_ops hk ?c (map (\<lambda>p. Op_set (fst p) (snd p)) ts) =
     Inr (?c\<lparr>cache := cache ?c @ map (\<lambda>p. (hk (fst p), snd p)) ts\<rparr>)"
    by (rule Cons.IH) (use Cons.prems in auto)
  then show ?case using step by simp
qed

lemma overfill:
  fixes hk :: "'t \<Rightarrow> 'k" and ts :: "('t \<times> 'v) list"
  assumes "0 < m" and "length ts = nat m + 1" and "distinct (map (\<lambda>p. hk (fst p)) ts)"
  shows "run_ops hk (TranslationCache m) (map (\<lambda>p. Op_set (fst p) (snd p)) ts) =
     Inr \<lparr>cache = map (\<lambda>p. (hk (fst p), snd p)) (tl ts), max_size = m, hits = 0, misses = 0\<rparr>"
proof -
  obtain ts' p where ts: "ts = ts' @ [p]" using assms(2) by (cases ts rule: rev_cases) auto
  have len: "length ts' = nat m" using assms(2) ts by simp
  then have ne: "ts' \<noteq> []" using assms(1) by auto
  let ?c = "TranslationCache m :: ('k, 'v) translation_cache"
  have a: "run_ops hk ?c (map (\<lambda>p. Op_set (fst p) (snd p)) ts') =
     Inr (?c\<lparr>cache := cache ?c @ map (\<lambda>p. (hk (fst p), snd p)) ts'\<rparr>)"
    by (rule fill_fresh) (use len assms ts in \<open>auto simp: TranslationCache_def\<close>)
  let ?c1 = "?c\<lparr>cache := cache ?c @ map (\<lambda>p. (hk (fst p), snd p)) ts'\<rparr>"
  have b: "cache_set hk ?c1 (fst p) (snd p) = Inr (?c1\<lparr>cache := tl (cache ?c1) @ [(hk (fst p), snd p)]\<rparr>)"
    by (rule cache_set_evicts_first)
      (use len assms ts in \<open>auto simp: TranslationCache_def image_iff\<close>)
  show ?thesis
    using a b ne unfolding ts
    by (simp add: run_ops_append TranslationCache_def map_tl)
qed

lemma cache_get_frame:
  "max_size (snd (cache_get hk c t)) = max_size c \<and> hits c \<le> hits (snd (cache_get hk c t)) \<and>
   misses c \<le> misses (snd (cache_get hk c t))"
  by (simp add: cache_get_def Let_def split: option.splits)

lemma cache_set_ok:
  "0 < max_size c \<Longrightarrow>
   \<exists>c'. cache_set hk c t v = Inr c' \<and> max_size c' = max_size c \<and> hits c' = hits c \<and>
        misses c' = misses c"
  by (cases "cache c") (auto simp: cache_set_def od_popitem_first_def Let_def)

lemma cache_set_frame:
  "cache_set hk c t v = Inr c' \<Longrightarrow>
   max_size c' = max_size c \<and> hits c' = hits c \<and> misses c' = misses c"
  by (auto simp: cache_set_def od_popitem_first_def Let_def split: if_splits list.splits)

lemma run_ops_frame:
  "run_ops hk c ops = Inr c' \<Longrightarrow>
   max_size c' = max_size c \<and> hits c \<le> hits c' \<and> misses c \<le> misses c'"
proof (induction hk c ops rule: run_ops.induct)
  case (1 hk c)
  then show ?case by simp
next
  case (2 hk c t ops)
  with cache_get_frame[of hk c t] show ?case by simp
next
  case (3 hk c t v ops)
  then obtain c1 where c1: "cache_set hk c t v = Inr c1" "run_ops hk c1 ops = Inr c'"
    by (auto split: sum.splits)
  with 3(1)[OF c1(1)] cache_set_frame[OF c1(1)] show ?case by simp
qed

lemma cache_steps_frame:
  "cache_steps hk c c' \<Longrightarrow>
   max_size c' = max_size c \<and> hits c \<le> hits c' \<and> misses c \<le> misses c'"
  unfolding cache_steps_def using run_ops_frame by blast

lemma cache_steps_refl: "cache_steps hk c c"
  unfolding cache_steps_def by (rule exI[of _ "[]"]) simp

lemma cache_steps_trans: "cache_steps hk a b \<Longrightarrow> cache_steps hk b c \<Longrightarrow> cache_steps hk a c"
  unfolding cache_steps_def
proof -
  assume "\<exists>ops. run_ops hk a ops = Inr b" and "\<exists>ops. run_ops hk b ops = Inr c"
  then obtain o1 o2 where "run_ops hk a o1 = Inr b" "run_ops hk b o2 = Inr c" by blast
  then have "run_ops hk a (o1 @ o2) = Inr c" by (simp add: run_ops_append)
  then show "\<exists>ops. run_ops hk a ops = Inr c" by blast
qed

lemma cache_steps_get: "cache_steps hk c (snd (cache_get hk c t))"
  unfolding cache_steps_def by (rule exI[of _ "[Op_get t]"]) simp

lemma cache_steps_set: "cache_set hk c t v = Inr c' \<Longrightarrow> cache_steps hk c c'"
  unfolding cache_steps_def by (rule exI[of _ "[Op_set t v]"]) simp

lemma get_text_encodable:
  "encodable t \<Longrightarrow> get_text digest c t = Inr (cache_get digest c t)"
  by (simp add: get_text_def hash_key_def cache_get_def)

lemma set_text_encodable:
  "encodable t \<Longrightarrow> set_text digest c t v = cache_set digest c t v"
  by (simp add: set_text_def hash_key_def cache_set_def)

lemma get_text_raises:
  "\<not> encodable t \<Longrightarrow> get_text digest c t = Inl UnicodeEncodeError"
  by (simp add: get_text_def hash_key_def)

lemma set_text_raises:
  "\<not> encodable t \<Longrightarrow> set_text digest c t v = Inl UnicodeEncodeError"
  by (simp add: set_text_def hash_key_def)

text \<open>
  Claim C4. A cache built with a capacity \<open>m\<close> of at least 1 is a bounded LRU:
  \<^enum> any sequence of \<open>get\<close> and \<open>set\<close> calls runs without an exception and leaves at most
    \<open>m\<close> entries;
  \<^enum> when the \<open>set\<close> calls of the sequence insert distinct keys, the entries are kept in
    the order of their last use, least recently used first;
  \<^enum> a \<open>set\<close> of a new key on a full cache removes exactly that first entry and appends
    the new one;
  \<^enum> inserting \<open>m + 1\<close> distinct keys into the new cache leaves all of them but the
    first one inserted;
  \<^enum> a \<open>get\<close> that hits returns the value, counts one hit and moves the entry to the
    most recently used end, the others keeping their order.
\<close>

theorem cache_bounded_lru:
  fixes hk :: "'t \<Rightarrow> 'k" and m :: int
  assumes "0 < m"
  shows "(\<forall>ops :: ('t, 'v) cache_op list.
            \<exists>c. run_ops hk (TranslationCache m) ops = Inr c \<and> int (length (cache c)) \<le> m) \<and>
         (\<forall>ops :: ('t, 'v) cache_op list. distinct (set_keys hk ops) \<longrightarrow>
            (\<exists>c. run_ops hk (TranslationCache m) ops = Inr c \<and>
               sorted_wrt (\<lambda>a b. last_use hk ops a < last_use hk ops b) (map fst (cache c)))) \<and>
         (\<forall>(c :: ('k, 'v) translation_cache) t v.
            max_size c = m \<and> int (length (cache c)) = m \<and> hk t \<notin> fst ` set (cache c) \<longrightarrow>
            cache_set hk c t v = Inr (c\<lparr>cache := tl (cache c) @ [(hk t, v)]\<rparr>)) \<and>
         (\<forall>ts :: ('t \<times> 'v) list.
            length ts = nat m + 1 \<and> distinct (map (\<lambda>p. hk (fst p)) ts) \<longrightarrow>
            run_ops hk (TranslationCache m) (map (\<lambda>p. Op_set (fst p) (snd p)) ts) =
              Inr \<lparr>cache = map (\<lambda>p. (hk (fst p), snd p)) (tl ts), max_size = m,
                    hits = 0, misses = 0\<rparr>) \<and>
         (\<forall>(c :: ('k, 'v) translation_cache) t v.
            map_of (cache c) (hk t) = Some v \<longrightarrow>
            cache_get hk c t =
              (Some v, c\<lparr>hits := hits c + 1,
                          cache := filter (\<lambda>e. fst e \<noteq> hk t) (cache c) @ [(hk t, v)]\<rparr>))"
proof (intro conjI allI impI)
  fix ops :: "('t, 'v) cache_op list"
  have "\<exists>c'. run_ops hk (TranslationCache m) ops = Inr c' \<and> distinct (map fst (cache c')) \<and>
        int (length (cache c')) \<le> max_size (TranslationCache m :: ('k, 'v) translation_cache) \<and>
        max_size c' = max_size (TranslationCache m :: ('k, 'v) translation_cache)"
    by (rule run_ops_bounded) (use assms in \<open>simp_all add: TranslationCache_def\<close>)
  then show "\<exists>c. run_ops hk (TranslationCache m) ops = Inr c \<and> int (length (cache c)) \<le> m"
    by (auto simp: TranslationCache_def)
next
  fix ops :: "('t, 'v) cache_op list"
  assume d: "distinct (set_keys hk ops)"
  have i: "lru_inv hk [] (TranslationCache m :: ('k, 'v) translation_cache)"
    using assms by (simp add: lru_inv_def TranslationCache_def)
  have "\<exists>c'. run_ops hk (TranslationCache m) ops = Inr c' \<and> lru_inv hk ([] @ ops) c' \<and>
          max_size c' = max_size (TranslationCache m :: ('k, 'v) translation_cache)"
    by (rule run_ops_lru[OF i]) (use assms d in \<open>simp_all add: TranslationCache_def\<close>)
  then show "\<exists>c. run_ops hk (TranslationCache m) ops = Inr c \<and>
               sorted_wrt (\<lambda>a b. last_use hk ops a < last_use hk ops b) (map fst (cache c))"
    by (auto simp: lru_inv_def)
next
  fix c :: "('k, 'v) translation_cache" and t v
  assume "max_size c = m \<and> int (length (cache c)) = m \<and> hk t \<notin> fst ` set (cache c)"
  then show "cache_set hk c t v = Inr (c\<lparr>cache := tl (cache c) @ [(hk t, v)]\<rparr>)"
    using assms cache_set_evicts_first[of c hk t v] by simp
next
  fix ts :: "('t \<times> 'v) list"
  assume "length ts = nat m + 1 \<and> distinct (map (\<lambda>p. hk (fst p)) ts)"
  then show "run_ops hk (TranslationCache m) (map (\<lambda>p. Op_set (fst p) (snd p)) ts) =
              Inr \<lparr>cache = map (\<lambda>p. (hk (fst p), snd p)) (tl ts), max_size = m,
                    hits = 0, misses = 0\<rparr>"
    using overfill[OF assms, of ts hk] by simp
next
  fix c :: "('k, 'v) translation_cache" and t v
  assume "map_of (cache c) (hk t) = Some v"
  then show "cache_get hk c t =
              (Some v, c\<lparr>hits := hits c + 1,
                          cache := filter (\<lambda>e. fst e \<noteq> hk t) (cache c) @ [(hk t, v)]\<rparr>)"
    by (simp add: cache_get_def Let_def)
qed

text \<open>
  A cache of capacity 2 with the identity as key function: \<open>a\<close> and \<open>b\<close> are inserted,
  \<open>a\<close> is read, and the insertion of \<open>c\<close> evicts \<open>b\<close>, the least recently used.
\<close>

theorem cache_bounded_lru_witness:
  "(0::int) < 2 \<and>
   distinct (set_keys (\<lambda>t. t) [Op_set (lit ''a'') (lit ''A''), Op_set (lit ''b'') (lit ''B''),
      Op_get (lit ''a''), Op_set (lit ''c'') (lit ''C'')]) \<and>
   run_ops (\<lambda>t. t) (TranslationCache 2)
     [Op_set (lit ''a'') (lit ''A''), Op_set (lit ''b'') (lit ''B''),
      Op_get (lit ''a''), Op_set (lit ''c'') (lit ''C'')] =
     Inr \<lparr>cache = [(lit ''a'', lit ''A''), (lit ''c'', lit ''C'')], max_size = 2,
           hits = 1, misses = 0\<rparr> \<and>
   (\<exists>c. run_ops (\<lambda>t. t) (TranslationCache 2)
     [Op_set (lit ''a'') (lit ''A''), Op_set (lit ''b'') (lit ''B''),
      Op_get (lit ''a''), Op_set (lit ''c'') (lit ''C'')] = Inr c \<and>
      int (length (cache c)) \<le> 2 \<and>
      sorted_wrt (\<lambda>a b.
          last_use (\<lambda>t. t) [Op_set (lit ''a'') (lit ''A''), Op_set (lit ''b'') (lit ''B''),
            Op_get (lit ''a''), Op_set (lit ''c'') (lit ''C'')] a
        < last_use (\<lambda>t. t) [Op_set (lit ''a'') (lit ''A''), Op_set (lit ''b'') (lit ''B''),
            Op_get (lit ''a''), Op_set (lit ''c'') (lit ''C'')] b) (map fst (cache c)))"
proof -
  let ?ops = "[Op_set (lit ''a'') (lit ''A''), Op_set (lit ''b'') (lit ''B''),
      Op_get (lit ''a''), Op_set (lit ''c'') (lit ''C'')]"
  have pos: "(0::int) < 2" by simp
  have d: "distinct (set_keys (\<lambda>t. t) ?ops)"
    by (simp add: lit_def)
  have r: "run_ops (\<lambda>t. t) (TranslationCache 2) ?ops =
     Inr \<lparr>cache = [(lit ''a'', lit ''A''), (lit ''c'', lit ''C'')], max_size = 2,
           hits = 1, misses = 0\<rparr>"
    by (simp add: lit_def TranslationCache_def cache_set_def cache_get_def od_popitem_first_def)
  note T = cache_bounded_lru[where 'v = ustr and hk = "\<lambda>t::ustr. t", OF pos]
  have t1: "\<exists>c. run_ops (\<lambda>t. t) (TranslationCache 2) ?ops = Inr c \<and> int (length (cache c)) \<le> 2"
    using T[THEN conjunct1] by (rule spec)
  have t2: "\<exists>c. run_ops (\<lambda>t. t) (TranslationCache 2) ?ops = Inr c \<and>
      sorted_wrt (\<lambda>a b. last_use (\<lambda>t. t) ?ops a < last_use (\<lambda>t. t) ?ops b) (map fst (cache c))"
    using T[THEN conjunct2, THEN conjunct1, rule_format, OF d] .
  from t1 obtain c1 where c1: "run_ops (\<lambda>t. t) (TranslationCache 2) ?ops = Inr c1"
    "int (length (cache c1)) \<le> 2" by (elim exE conjE)
  from t2 obtain c2 where c2: "run_ops (\<lambda>t. t) (TranslationCache 2) ?ops = Inr c2"
    "sorted_wrt (\<lambda>a b. last_use (\<lambda>t. t) ?ops a < last_use (\<lambda>t. t) ?ops b) (map fst (cache c2))"
    by (elim exE conjE)
  from c1(1) c2(1) have "c1 = c2" by simp
  with c1 c2 have e: "\<exists>c. run_ops (\<lambda>t. t) (TranslationCache 2) ?ops = Inr c \<and>
      int (length (cache c)) \<le> 2 \<and>
      sorted_wrt (\<lambda>a b. last_use (\<lambda>t. t) ?ops a < last_use (\<lambda>t. t) ?ops b) (map fst (cache c))"
    by (intro exI[of _ c2] conjI) simp_all
  show ?thesis
    by (intro conjI pos d r e)
qed

section \<open>The embedding is a unit vector or the zero vector\<close>

lemma strip_has_nonspace: "strip s \<noteq> [] \<Longrightarrow> \<exists>c \<in> set (strip s). \<not> isspace c"
proof -
  assume a: "strip s \<noteq> []"
  let ?d = "dropWhile isspace (rev (lstrip s))"
  from a have ne: "?d \<noteq> []" by (simp add: strip_def rstrip_def)
  then have "\<not> isspace (hd ?d)" by (rule hd_dropWhile)
  moreover from ne have "hd ?d \<in> set (strip s)" by (simp add: strip_def rstrip_def)
  ultimately show ?thesis by blast
qed

lemma words_acc_nonempty:
  "cur \<noteq> [] \<or> (\<exists>c \<in> set s. \<not> isspace c) \<Longrightarrow> words_acc cur s \<noteq> []"
  by (induction s arbitrary: cur) auto

lemma split_ws_nonempty: "\<exists>c \<in> set s. \<not> isspace c \<Longrightarrow> split_ws s \<noteq> []"
  by (simp add: split_ws_def words_acc_nonempty)

lemma py_index_in_range:
  "0 < d \<Longrightarrow> n = nat d \<Longrightarrow> \<exists>i. py_index n (h mod d) = Some i \<and> i < n"
  by (simp add: py_index_def Let_def)

lemma accumulate_ok:
  assumes "0 < d" and "0 \<le> w"
  shows "length v = nat d \<Longrightarrow> \<forall>x \<in> set v. 0 \<le> x \<Longrightarrow>
    \<exists>v'. accumulate hash d w tokens v = Inr v' \<and> length v' = nat d \<and> (\<forall>x \<in> set v'. 0 \<le> x) \<and>
      ((\<exists>x \<in> set v. 0 < x) \<or> (tokens \<noteq> [] \<and> 0 < w) \<longrightarrow> (\<exists>x \<in> set v'. 0 < x))"
proof (induction tokens arbitrary: v)
  case Nil
  then show ?case by simp
next
  case (Cons t ts)
  from py_index_in_range[OF assms(1), of "length v" "hash t"] Cons.prems(1)
  obtain i where i: "py_index (length v) (hash t mod d) = Some i" "i < length v" by auto
  let ?v = "v[i := v ! i + w]"
  have len: "length ?v = nat d" using Cons.prems(1) by simp
  have nonneg: "\<forall>x \<in> set ?v. 0 \<le> x"
  proof
    fix x assume "x \<in> set ?v"
    then have "x \<in> insert (v ! i + w) (set v)" using set_update_subset_insert by fastforce
    moreover have "0 \<le> v ! i + w" using Cons.prems(2) i(2) assms(2) by (simp add: add_nonneg_nonneg)
    ultimately show "0 \<le> x" using Cons.prems(2) by auto
  qed
  have pos: "(\<exists>x \<in> set v. 0 < x) \<or> 0 < w \<Longrightarrow> \<exists>x \<in> set ?v. 0 < x"
  proof -
    assume h: "(\<exists>x \<in> set v. 0 < x) \<or> 0 < w"
    have vi: "0 \<le> v ! i" using Cons.prems(2) i(2) by simp
    show ?thesis
    proof (cases "0 < v ! i + w")
      case True
      moreover have "v ! i + w \<in> set ?v" using i(2) by (simp add: set_update_memI)
      ultimately show ?thesis by blast
    next
      case False
      then have w0: "w = 0" "v ! i = 0" using vi assms(2) by auto
      then have "?v = v" by (metis list_update_id add.right_neutral)
      with h w0 show ?thesis by auto
    qed
  qed
  from Cons.IH[OF len nonneg] obtain v' where v':
    "accumulate hash d w ts ?v = Inr v'" "length v' = nat d" "\<forall>x \<in> set v'. 0 \<le> x"
    "(\<exists>x \<in> set ?v. 0 < x) \<or> (ts \<noteq> [] \<and> 0 < w) \<longrightarrow> (\<exists>x \<in> set v'. 0 < x)" by blast
  have "accumulate hash d w (t # ts) v = Inr v'" using assms(1) i v'(1) by simp
  moreover have "(\<exists>x \<in> set v. 0 < x) \<or> (t # ts \<noteq> [] \<and> 0 < w) \<longrightarrow> (\<exists>x \<in> set v'. 0 < x)"
    using pos v'(4) by blast
  ultimately show ?case using v'(2,3) by blast
qed

lemma sum_squares_pos:
  fixes v :: "real list"
  shows "\<exists>x \<in> set v. x \<noteq> 0 \<Longrightarrow> 0 < sum_list (map (\<lambda>x. x * x) v)"
proof (induction v)
  case Nil
  then show ?case by simp
next
  case (Cons a v)
  have nn: "0 \<le> sum_list (map (\<lambda>x. x * x) v)" by (rule sum_list_nonneg) auto
  show ?case
  proof (cases "a = 0")
    case True
    with Cons show ?thesis by auto
  next
    case False
    then have "0 < a * a" by (simp add: zero_less_mult_iff) (metis linorder_neqE_linordered_idom)
    with nn show ?thesis by simp
  qed
qed

lemma sum_squares_scaled:
  fixes v :: "real list"
  shows "sum_list (map (\<lambda>x. x * x) (map (\<lambda>x. x / m) v)) = sum_list (map (\<lambda>x. x * x) v) / (m * m)"
  by (induction v) (simp_all add: add_divide_distrib)

lemma magnitude_normalised:
  "0 < magnitude v \<Longrightarrow> magnitude (map (\<lambda>x. x / magnitude v) v) = 1"
proof -
  assume p: "0 < magnitude v"
  let ?S = "sum_list (map (\<lambda>x. x * x) v)"
  have m: "magnitude v = sqrt ?S" by (simp add: magnitude_def)
  have S: "0 \<le> ?S" by (rule sum_list_nonneg) auto
  have "sum_list (map (\<lambda>x. x * x) (map (\<lambda>x. x / magnitude v) v)) = ?S / (magnitude v * magnitude v)"
    by (rule sum_squares_scaled)
  then have "magnitude (map (\<lambda>x. x / magnitude v) v) = sqrt (?S / (sqrt ?S * sqrt ?S))"
    unfolding magnitude_def by (rule arg_cong)
  also have "... = sqrt (?S / ?S)" using S by simp
  also have "... = 1" using p m by simp
  finally show ?thesis .
qed

lemma magnitude_zeros: "magnitude (replicate n 0) = 0"
  by (simp add: magnitude_def sum_list_replicate)

lemma accumulate_no_tokens: "accumulate hash d w [] v = Inr v"
  by simp

lemma trigrams_empty: "trigrams [] = []"
  by (simp add: trigrams_def)

lemma split_ws_empty: "split_ws [] = []"
  by (simp add: split_ws_def)

lemma embed_result:
  assumes "0 < dim'"
  shows "\<exists>v. embed hash lower dim' text = Inr v \<and> length v = nat dim' \<and>
           (text \<noteq> [] \<and> strip (lower text) \<noteq> [] \<longrightarrow> magnitude v = 1) \<and>
           (text = [] \<or> strip (lower text) = [] \<longrightarrow> v = replicate (nat dim') 0)"
proof (cases "text = []")
  case True
  then show ?thesis by (simp add: embed_def)
next
  case False
  let ?t = "strip (lower text)"
  let ?z = "replicate (nat dim') (0::real)"
  show ?thesis
  proof (cases "?t = []")
    case True
    then have "embed hash lower dim' text = Inr ?z"
      using False by (simp add: embed_def trigrams_empty split_ws_empty magnitude_zeros)
    with True show ?thesis by simp
  next
    case nonempty: False
    from accumulate_ok[OF assms, of 1 ?z hash "trigrams ?t"]
    obtain v1 where v1: "accumulate hash dim' 1 (trigrams ?t) ?z = Inr v1" "length v1 = nat dim'"
      "\<forall>x \<in> set v1. 0 \<le> x" by auto
    have words: "split_ws ?t \<noteq> []"
      using strip_has_nonspace[OF nonempty] by (rule split_ws_nonempty)
    from accumulate_ok[OF assms, of "1 / 2" v1 hash "split_ws ?t"] v1(2,3) words
    obtain v2 where v2: "accumulate hash dim' (1 / 2) (split_ws ?t) v1 = Inr v2"
      "length v2 = nat dim'" "\<exists>x \<in> set v2. 0 < x" by auto
    from v2(3) have "\<exists>x \<in> set v2. x \<noteq> 0" by force
    then have "0 < magnitude v2" by (simp add: magnitude_def sum_squares_pos)
    then have m: "magnitude v2 \<noteq> 0" "magnitude (map (\<lambda>x. x / magnitude v2) v2) = 1"
      by (simp_all add: magnitude_normalised)
    have "embed hash lower dim' text = Inr (map (\<lambda>x. x / magnitude v2) v2)"
      using False v1(1) v2(1) m(1) by (simp add: embed_def Let_def)
    with m(2) v2(2) nonempty False show ?thesis by simp
  qed
qed

text \<open>
  Claim C3, as amended. For a dimension of at least 1 (256 in the pipeline) and every
  text, \<open>embed\<close> returns a vector of that dimension. Its Euclidean norm is 1 (in exact
  arithmetic) whenever the lowercased and trimmed text is not empty, that is, the text
  has a character that is not white space; it is the zero vector when the text is empty
  or consists of white space only.
\<close>

theorem embed_unit_or_zero:
  assumes "0 < dim'"
  shows "\<exists>v. embed hash lower dim' text = Inr v \<and> length v = nat dim' \<and>
           (text \<noteq> [] \<and> strip (lower text) \<noteq> [] \<longrightarrow> magnitude v = 1) \<and>
           (text = [] \<or> strip (lower text) = [] \<longrightarrow> v = replicate (nat dim') 0)"
  using embed_result[OF assms] .

text \<open>
  The text \<open>"x y"\<close> with dimension 256: it is not empty after trimming, and the result
  has norm 1.
\<close>

theorem embed_unit_or_zero_witness:
  "(0::int) < 256 \<and> lit ''x y'' \<noteq> [] \<and> strip (ascii_lower (lit ''x y'')) \<noteq> [] \<and>
   (\<exists>v. embed sum_hash ascii_lower 256 (lit ''x y'') = Inr v \<and> length v = 256 \<and> magnitude v = 1)"
proof -
  have pos: "(0::int) < 256" by simp
  have a: "lit ''x y'' \<noteq> []" by (simp add: lit_def)
  have b: "strip (ascii_lower (lit ''x y'')) \<noteq> []"
    by (simp add: lit_def ascii_lower_def strip_def lstrip_def rstrip_def isspace_def)
  from embed_unit_or_zero[OF pos, of sum_hash ascii_lower "lit ''x y''"] a b
  have "\<exists>v. embed sum_hash ascii_lower 256 (lit ''x y'') = Inr v \<and> length v = 256 \<and> magnitude v = 1"
    by auto
  with pos a b show ?thesis by blast
qed

text \<open>
  The claim as stated fails for a text that is not empty but has white space only: the
  text of one space gives the zero vector, of norm 0.
\<close>

theorem embed_unit_or_zero_counterexample:
  "lit '' '' \<noteq> [] \<and>
   embed sum_hash ascii_lower 256 (lit '' '') = Inr (replicate 256 0) \<and>
   magnitude (replicate 256 0) = 0"
  by (simp add: embed_def lit_def ascii_lower_def strip_def lstrip_def rstrip_def isspace_def
      trigrams_empty split_ws_empty magnitude_zeros)

section \<open>The size of a chunk\<close>

lemma sentences_trimmed: "x \<in> set (split_into_sentences s) \<Longrightarrow> trimmed x"
  by (auto simp: split_into_sentences_def strip_trimmed)

lemma close_chunk_buffer: "current_chunk (close_chunk pp st) = current_chunk st"
  by (simp add: close_chunk_def)

lemma close_chunk_texts:
  "map text' (chunks' (close_chunk pp st)) =
     map text' (chunks' st) @ (if strip (current_chunk st) \<noteq> [] then [strip (current_chunk st)] else [])"
  by (simp add: close_chunk_def)

lemma close_chunk_last:
  "chunks' (close_chunk pp st) \<noteq> [] \<Longrightarrow> strip (current_chunk st) \<noteq> [] \<Longrightarrow>
   text' (last (chunks' (close_chunk pp st))) = strip (current_chunk st)"
  by (simp add: close_chunk_def)

lemma bounded_buffer_strip:
  assumes "bounded_buffer S k ov cur" and "strip cur \<noteq> []" and "\<forall>x \<in> set S. trimmed x"
  shows "within_bound S k ov (strip cur)"
proof -
  from assms(1,2) obtain body where body: "cur = body @ [32]"
    "int (length body) \<le> k \<or> (\<exists>x \<in> set S. \<exists>seed. body = seed @ x \<and> int (length seed) \<le> max 0 ov + 1)"
    by (auto simp: bounded_buffer_def strip_def lstrip_def rstrip_def)
  have s: "strip cur = strip body" using body(1) by (simp add: strip_space_end)
  from body(2) show ?thesis
  proof
    assume "int (length body) \<le> k"
    moreover have "length (strip body) \<le> length body" by (rule length_strip_le)
    ultimately show ?thesis using s by (simp add: within_bound_def)
  next
    assume "\<exists>x \<in> set S. \<exists>seed. body = seed @ x \<and> int (length seed) \<le> max 0 ov + 1"
    then obtain x seed where x: "x \<in> set S" "body = seed @ x" "int (length seed) \<le> max 0 ov + 1"
      by blast
    have t: "trimmed x" using assms(3) x(1) by blast
    have "strip body = lstrip seed @ x"
      using strip_around_trimmed[OF t, of seed "[]"] x(2) by (simp add: rstrip_def)
    moreover have "length (lstrip seed) \<le> length seed"
      unfolding lstrip_def by (rule length_dropWhile_le)
    ultimately have "suffix x (strip cur)" "int (length (strip cur)) \<le> int (length x) + max 0 ov + 1"
      using s x(3) by (auto simp: suffix_def)
    with x(1) show ?thesis by (auto simp: within_bound_def)
  qed
qed

lemma close_chunk_bound:
  assumes "\<forall>t \<in> set (map text' (chunks' st)). within_bound S k ov t"
    and "bounded_buffer S k ov (current_chunk st)" and "\<forall>x \<in> set S. trimmed x"
  shows "\<forall>t \<in> set (map text' (chunks' (close_chunk pp st))). within_bound S k ov t"
  using assms bounded_buffer_strip[OF assms(2) _ assms(3)]
  by (auto simp: close_chunk_texts simp del: set_map)

lemma add_sentence_bound:
  assumes "\<forall>t \<in> set (map text' (chunks' st)). within_bound S k ov t"
    and "bounded_buffer S k ov (current_chunk st)" and "\<forall>x \<in> set S. trimmed x"
    and "x \<in> set S"
  shows "(\<forall>t \<in> set (map text' (chunks' (add_sentence pp k ov st x))). within_bound S k ov t) \<and>
         bounded_buffer S k ov (current_chunk (add_sentence pp k ov st x))"
proof (cases "int (length (current_chunk st)) + int (length x) \<le> k")
  case True
  then have "add_sentence pp k ov st x = st\<lparr>current_chunk := current_chunk st @ x @ [32]\<rparr>"
    by (simp add: add_sentence_def lit_space)
  moreover have "bounded_buffer S k ov (current_chunk st @ x @ [32])"
    unfolding bounded_buffer_def using True
    by (intro disjI2 exI[of _ "current_chunk st @ x"]) simp
  ultimately show ?thesis using assms(1) by simp
next
  case False
  let ?st1 = "close_chunk pp st"
  have c: "\<forall>t \<in> set (map text' (chunks' ?st1)). within_bound S k ov t"
    by (rule close_chunk_bound[OF assms(1,2,3)])
  show ?thesis
  proof (cases "chunks' ?st1 \<noteq> [] \<and> 0 < ov")
    case True
    let ?t = "text' (last (chunks' ?st1))"
    let ?seed = "drop (length ?t - nat ov) ?t @ [32]"
    have eq: "add_sentence pp k ov st x =
      ?st1\<lparr>current_start := end_pos (last (chunks' ?st1)) - ov,
            current_chunk := ?seed @ x @ [32]\<rparr>"
      using False True by (simp add: add_sentence_def Let_def lit_space)
    have "length (drop (length ?t - nat ov) ?t) \<le> nat ov" by simp
    then have "int (length ?seed) \<le> max 0 ov + 1" using True by (simp del: length_drop) linarith
    then have "bounded_buffer S k ov ((?seed @ x) @ [32])"
      unfolding bounded_buffer_def using assms(4)
      by (intro disjI2 exI[of _ "?seed @ x"] conjI refl bexI[of _ x] exI[of _ ?seed]) simp_all
    with c eq show ?thesis by simp
  next
    case no: False
    have eq: "add_sentence pp k ov st x =
      ?st1\<lparr>current_start := (if chunks' ?st1 \<noteq> [] then end_pos (last (chunks' ?st1)) else 0),
            current_chunk := x @ [32]\<rparr>"
      using False no by (auto simp: add_sentence_def Let_def lit_space)
    have "bounded_buffer S k ov (([] @ x) @ [32])"
      unfolding bounded_buffer_def using assms(4)
      by (intro disjI2 exI[of _ "[] @ x"] conjI refl bexI[of _ x] exI[of _ "[]"]) simp_all
    with c eq show ?thesis by simp
  qed
qed

lemma sentences_bound:
  assumes "\<forall>x \<in> set S. trimmed x"
  shows "\<forall>t \<in> set (map text' (chunks' st)). within_bound S k ov t \<Longrightarrow>
     bounded_buffer S k ov (current_chunk st) \<Longrightarrow> set ss \<subseteq> set S \<Longrightarrow>
     (\<forall>t \<in> set (map text' (chunks' (foldl (add_sentence pp k ov) st ss))). within_bound S k ov t) \<and>
     bounded_buffer S k ov (current_chunk (foldl (add_sentence pp k ov) st ss))"
proof (induction ss arbitrary: st)
  case Nil
  then show ?case by simp
next
  case (Cons x ss)
  from add_sentence_bound[OF Cons.prems(1,2) assms, of x pp] Cons.prems(3)
  have "(\<forall>t \<in> set (map text' (chunks' (add_sentence pp k ov st x))). within_bound S k ov t) \<and>
         bounded_buffer S k ov (current_chunk (add_sentence pp k ov st x))" by simp
  with Cons.IH[of "add_sentence pp k ov st x"] Cons.prems(3) show ?case by simp
qed

lemma chunk_document_bound:
  "\<forall>t \<in> set (map text' (chunk_document digit s k ov)).
     within_bound (document_sentences digit s) k ov t"
proof (cases "s = [] \<or> strip s = []")
  case True
  then show ?thesis by (auto simp: chunk_document_def)
next
  case False
  let ?S = "document_sentences digit s"
  let ?pp = "fst (snd (read_pages digit s))"
  let ?st0 = "\<lparr>chunks' = [], current_chunk = [], current_start = 0, chunk_id = 0\<rparr>"
  have tr: "\<forall>x \<in> set ?S. trimmed x"
    by (auto simp: document_sentences_def sentences_trimmed)
  have "(\<forall>t \<in> set (map text' (chunks' (foldl (add_sentence ?pp k ov) ?st0 ?S))). within_bound ?S k ov t) \<and>
     bounded_buffer ?S k ov (current_chunk (foldl (add_sentence ?pp k ov) ?st0 ?S))"
    by (rule sentences_bound[OF tr]) (simp_all add: bounded_buffer_def)
  then have "\<forall>t \<in> set (map text' (chunks' (close_chunk ?pp (foldl (add_sentence ?pp k ov) ?st0 ?S)))).
      within_bound ?S k ov t"
    using close_chunk_bound tr by blast
  then show ?thesis using False by (simp add: chunk_document_def Let_def del: set_map)
qed

lemma sublist_strip: "trimmed x \<Longrightarrow> sublist x cur \<Longrightarrow> sublist x (strip cur)"
proof -
  assume t: "trimmed x" and "sublist x cur"
  then obtain p q where "cur = p @ x @ q" by (auto simp: sublist_def)
  then have "strip cur = lstrip p @ x @ rstrip q" using strip_around_trimmed[OF t] by simp
  then show ?thesis by (metis sublist_appendI)
qed

lemma close_chunk_covers:
  assumes "kept st x" and "trimmed x"
  shows "\<exists>c \<in> set (chunks' (close_chunk pp st)). sublist x (text' c)"
proof (cases "\<exists>c \<in> set (chunks' st). sublist x (text' c)")
  case True
  then show ?thesis by (auto simp: close_chunk_def)
next
  case False
  with assms(1) have "sublist x (current_chunk st)" by (simp add: kept_def)
  then have s: "sublist x (strip (current_chunk st))" by (rule sublist_strip[OF assms(2)])
  moreover from s assms(2) have "strip (current_chunk st) \<noteq> []" by (auto simp: trimmed_def)
  ultimately show ?thesis by (simp add: close_chunk_def)
qed

lemma add_sentence_kept:
  assumes "\<forall>y \<in> X. kept st y" and "\<forall>y \<in> X. trimmed y"
  shows "\<forall>y \<in> insert x X. kept (add_sentence pp k ov st x) y"
proof (cases "int (length (current_chunk st)) + int (length x) \<le> k")
  case True
  then have eq: "add_sentence pp k ov st x = st\<lparr>current_chunk := current_chunk st @ x @ [32]\<rparr>"
    by (simp add: add_sentence_def lit_space)
  have "kept (st\<lparr>current_chunk := current_chunk st @ x @ [32]\<rparr>) y" if "y \<in> insert x X" for y
  proof (cases "y = x")
    case True
    then show ?thesis by (simp add: kept_def sublist_appendI)
  next
    case False
    with that assms(1) have "kept st y" by simp
    then show ?thesis by (auto simp: kept_def sublist_append)
  qed
  with eq show ?thesis by simp
next
  case False
  let ?st1 = "close_chunk pp st"
  obtain start cur where eq: "add_sentence pp k ov st x = ?st1\<lparr>current_start := start, current_chunk := cur\<rparr>"
    and cur: "sublist x cur"
  proof (cases "chunks' ?st1 \<noteq> [] \<and> 0 < ov")
    case True
    let ?t = "text' (last (chunks' ?st1))"
    have "add_sentence pp k ov st x =
      ?st1\<lparr>current_start := end_pos (last (chunks' ?st1)) - ov,
            current_chunk := (drop (length ?t - nat ov) ?t @ [32]) @ x @ [32]\<rparr>"
      using False True by (simp add: add_sentence_def Let_def lit_space)
    moreover have "sublist x ((drop (length ?t - nat ov) ?t @ [32]) @ x @ [32])"
      by (rule sublist_appendI)
    ultimately show ?thesis using that by blast
  next
    case no: False
    have "add_sentence pp k ov st x =
      ?st1\<lparr>current_start := (if chunks' ?st1 \<noteq> [] then end_pos (last (chunks' ?st1)) else 0),
            current_chunk := [] @ x @ [32]\<rparr>"
      using False no by (auto simp: add_sentence_def Let_def lit_space)
    moreover have "sublist x ([] @ x @ [32])" by (rule sublist_appendI)
    ultimately show ?thesis using that by blast
  qed
  have "kept (?st1\<lparr>current_start := start, current_chunk := cur\<rparr>) y" if "y \<in> insert x X" for y
  proof (cases "y = x")
    case True
    with cur show ?thesis by (simp add: kept_def)
  next
    case False
    with that assms have "kept st y" "trimmed y" by auto
    from close_chunk_covers[OF this] show ?thesis by (simp add: kept_def)
  qed
  with eq show ?thesis by simp
qed

lemma sentences_kept:
  "\<forall>y \<in> X. kept st y \<Longrightarrow> \<forall>y \<in> X \<union> set ss. trimmed y \<Longrightarrow>
   \<forall>y \<in> X \<union> set ss. kept (foldl (add_sentence pp k ov) st ss) y"
proof (induction ss arbitrary: st X)
  case Nil
  then show ?case by simp
next
  case (Cons x ss)
  have "\<forall>y \<in> insert x X. kept (add_sentence pp k ov st x) y"
    by (rule add_sentence_kept) (use Cons.prems in auto)
  moreover have "\<forall>y \<in> insert x X \<union> set ss. trimmed y" using Cons.prems(2) by auto
  ultimately have "\<forall>y \<in> insert x X \<union> set ss. kept (foldl (add_sentence pp k ov) (add_sentence pp k ov st x) ss) y"
    by (rule Cons.IH)
  then show ?case by simp
qed

lemma chunk_document_keeps:
  assumes "s \<noteq> []" and "strip s \<noteq> []" and "x \<in> set (document_sentences digit s)"
  shows "\<exists>c \<in> set (chunk_document digit s k ov). sublist x (text' c)"
proof -
  let ?S = "document_sentences digit s"
  let ?pp = "fst (snd (read_pages digit s))"
  let ?st0 = "\<lparr>chunks' = [], current_chunk = [], current_start = 0, chunk_id = 0\<rparr>"
  have tr: "\<forall>y \<in> {} \<union> set ?S. trimmed y"
    by (auto simp: document_sentences_def sentences_trimmed)
  have "\<forall>y \<in> {} \<union> set ?S. kept (foldl (add_sentence ?pp k ov) ?st0 ?S) y"
    by (rule sentences_kept[OF _ tr]) simp
  with assms(3) tr have "kept (foldl (add_sentence ?pp k ov) ?st0 ?S) x" "trimmed x" by auto
  from close_chunk_covers[OF this, of ?pp] show ?thesis
    using assms(1,2) by (simp add: chunk_document_def Let_def)
qed

lemma chunk_example:
  "map text' (chunk_document ascii_digit (lit ''ab. cd.'') 3 2) = [lit ''ab.'', lit ''b. cd.'']"
  "document_sentences ascii_digit (lit ''ab. cd.'') = [lit ''ab.'', lit ''cd.'']"
  by (simp_all add: chunk_document_def document_sentences_def read_pages_def
      re_split_pages.simps match_marker_def add_part_def split_into_sentences_def strip_def
      lstrip_def rstrip_def isspace_def is_sentence_end_def lit_def add_sentence_def
      close_chunk_def page_at_def Let_def)

text \<open>
  Claim C8, as amended. For every text, \<open>chunk_size\<close> and \<open>overlap\<close>, every chunk of
  \<open>chunk_document\<close> has at most \<open>chunk_size\<close> characters, or it ends with one whole
  sentence before which it has at most \<open>overlap\<close> characters of the previous chunk and
  one space. So when no sentence is longer than \<open>chunk_size\<close> every chunk has at most
  \<open>chunk_size + overlap + 1\<close> characters (\<open>overlap\<close> counting as 0 when negative), and
  a longer sentence is the end of a chunk of its own. No sentence is cut: each sentence
  of a text that is not blank is whole in some chunk.
\<close>

theorem chunk_length_bound:
  "(\<forall>c \<in> set (chunk_document digit s chunk_size overlap).
      int (length (text' c)) \<le> chunk_size \<or>
      (\<exists>x \<in> set (document_sentences digit s).
         suffix x (text' c) \<and> int (length (text' c)) \<le> int (length x) + max 0 overlap + 1)) \<and>
   ((\<forall>x \<in> set (document_sentences digit s). int (length x) \<le> chunk_size) \<longrightarrow>
      (\<forall>c \<in> set (chunk_document digit s chunk_size overlap).
         int (length (text' c)) \<le> chunk_size + max 0 overlap + 1)) \<and>
   (s \<noteq> [] \<and> strip s \<noteq> [] \<longrightarrow>
      (\<forall>x \<in> set (document_sentences digit s).
         \<exists>c \<in> set (chunk_document digit s chunk_size overlap). sublist x (text' c)))"
proof -
  have a: "within_bound (document_sentences digit s) chunk_size overlap (text' c)"
    if "c \<in> set (chunk_document digit s chunk_size overlap)" for c
    using chunk_document_bound[of digit s chunk_size overlap] that by simp
  have b: "int (length (text' c)) \<le> chunk_size + max 0 overlap + 1"
    if "c \<in> set (chunk_document digit s chunk_size overlap)"
      and "\<forall>x \<in> set (document_sentences digit s). int (length x) \<le> chunk_size" for c
    using a[OF that(1)] that(2) by (fastforce simp: within_bound_def)
  show ?thesis
    using a b chunk_document_keeps[where s = s and digit = digit and k = chunk_size and ov = overlap]
    by (auto simp: within_bound_def)
qed

text \<open>
  The text \<open>ab. cd.\<close> with \<open>chunk_size = 3\<close> and \<open>overlap = 2\<close>: the sentences \<open>ab.\<close> and
  \<open>cd.\<close> have 3 characters, the chunks are \<open>ab.\<close> and \<open>b. cd.\<close>, of at most
  \<open>3 + 2 + 1\<close> characters.
\<close>

theorem chunk_length_bound_witness:
  "map text' (chunk_document ascii_digit (lit ''ab. cd.'') 3 2) = [lit ''ab.'', lit ''b. cd.''] \<and>
   document_sentences ascii_digit (lit ''ab. cd.'') = [lit ''ab.'', lit ''cd.''] \<and>
   list_all (\<lambda>x. int (length x) \<le> 3) (document_sentences ascii_digit (lit ''ab. cd.'')) \<and>
   list_all (\<lambda>c. int (length (text' c)) \<le> 3 + max 0 2 + 1)
     (chunk_document ascii_digit (lit ''ab. cd.'') 3 2) \<and>
   lit ''ab. cd.'' \<noteq> [] \<and> strip (lit ''ab. cd.'') \<noteq> [] \<and>
   list_all (\<lambda>x. list_ex (\<lambda>c. sublist x (text' c)) (chunk_document ascii_digit (lit ''ab. cd.'') 3 2))
     (document_sentences ascii_digit (lit ''ab. cd.''))"
proof -
  note T = chunk_length_bound[of ascii_digit "lit ''ab. cd.''" 3 2]
  have s: "list_all (\<lambda>x. int (length x) \<le> 3) (document_sentences ascii_digit (lit ''ab. cd.''))"
    unfolding chunk_example by (simp add: lit_def)
  have n: "lit ''ab. cd.'' \<noteq> []" "strip (lit ''ab. cd.'') \<noteq> []"
    by (simp_all add: lit_def strip_def lstrip_def rstrip_def isspace_def)
  from T s have "\<forall>c \<in> set (chunk_document ascii_digit (lit ''ab. cd.'') 3 2).
         int (length (text' c)) \<le> 3 + max 0 2 + 1"
    by (simp only: list_all_iff) blast
  then have b: "list_all (\<lambda>c. int (length (text' c)) \<le> 3 + max 0 2 + 1)
     (chunk_document ascii_digit (lit ''ab. cd.'') 3 2)"
    by (simp only: list_all_iff)
  from T n have "\<forall>x \<in> set (document_sentences ascii_digit (lit ''ab. cd.'')).
         \<exists>c \<in> set (chunk_document ascii_digit (lit ''ab. cd.'') 3 2). sublist x (text' c)"
    by blast
  then have c: "list_all (\<lambda>x. list_ex (\<lambda>c. sublist x (text' c))
        (chunk_document ascii_digit (lit ''ab. cd.'') 3 2))
     (document_sentences ascii_digit (lit ''ab. cd.''))"
    by (simp only: list_all_iff list_ex_iff)
  show ?thesis
    by (intro conjI chunk_example s b n c)
qed

text \<open>
  The claim as stated fails on the same text: no sentence is longer than \<open>chunk_size = 3\<close>,
  and the second chunk \<open>b. cd.\<close> has 6 characters, more than \<open>chunk_size + overlap = 5\<close>.
\<close>

theorem chunk_length_bound_counterexample:
  "map text' (chunk_document ascii_digit (lit ''ab. cd.'') 3 2) = [lit ''ab.'', lit ''b. cd.''] \<and>
   document_sentences ascii_digit (lit ''ab. cd.'') = [lit ''ab.'', lit ''cd.''] \<and>
   int (length (lit ''ab.'')) \<le> 3 \<and> int (length (lit ''cd.'')) \<le> 3 \<and>
   \<not> int (length (lit ''b. cd.'')) \<le> 3 + 2"
  by (simp add: chunk_example) (simp add: lit_def)

section \<open>The generation client\<close>

lemma on_exception_one: "on_exception attempt message = Some r \<Longrightarrow> (fst r = None) \<noteq> (snd r = None)"
  by (auto simp: on_exception_def split: if_splits)

lemma attempt_once_one:
  "attempt_once endpoint p attempt g = (Some r, g') \<Longrightarrow> (fst r = None) \<noteq> (snd r = None)"
  unfolding attempt_once_def Let_def
  by (auto split: http_outcome.splits json_result.splits if_splits dest: on_exception_one)

lemma generate_loop_one:
  "(fst (fst (generate_loop endpoint p attempt g)) = None) \<noteq>
   (snd (fst (generate_loop endpoint p attempt g)) = None)"
proof (induction endpoint p attempt g rule: generate_loop.induct)
  case (1 endpoint p attempt g)
  show ?case
  proof (cases "attempt < MAX_RETRIES")
    case False
    then show ?thesis by (simp add: generate_loop.simps[of endpoint p attempt g])
  next
    case True
    obtain r g' where a: "attempt_once endpoint p attempt g = (r, g')" by (cases "attempt_once endpoint p attempt g")
    show ?thesis
    proof (cases r)
      case None
      with a True 1 show ?thesis by (simp add: generate_loop.simps[of endpoint p attempt g])
    next
      case (Some res)
      with a attempt_once_one[of endpoint p attempt g res g'] True
      show ?thesis by (simp add: generate_loop.simps[of endpoint p attempt g])
    qed
  qed
qed

lemma generate_text_or_error:
  "(fst (fst (generate endpoint g p)) = None) \<noteq> (snd (fst (generate endpoint g p)) = None)"
  using generate_loop_one[of endpoint p 0 g] by (simp add: generate_def)

text \<open>
  Claim C5. Whatever the endpoint does, \<open>generate\<close> returns a pair of which exactly one
  component is \<open>None\<close>: a text with no error, or an error with no text.
\<close>

theorem generate_exactly_one:
  "(fst (fst (generate endpoint g p)) = None) \<noteq> (snd (fst (generate endpoint g p)) = None)"
  by (rule generate_text_or_error)

lemma generate_loop_step:
  "attempt < MAX_RETRIES \<Longrightarrow>
   generate_loop endpoint p attempt g =
     (case attempt_once endpoint p attempt g of
        (Some result, g') \<Rightarrow> (result, g')
      | (None, g') \<Rightarrow> generate_loop endpoint p (attempt + 1) g')"
  by (simp add: generate_loop.simps[of endpoint p attempt g])

lemma generate_loop_end:
  "\<not> attempt < MAX_RETRIES \<Longrightarrow>
   generate_loop endpoint p attempt g = ((None, Some (lit ''Max retries exceeded'')), g)"
  by (simp add: generate_loop.simps[of endpoint p attempt g])

lemma generate_loop_unfold3:
  "generate_loop endpoint p 0 g =
     (case attempt_once endpoint p 0 g of
        (Some result, g') \<Rightarrow> (result, g')
      | (None, g') \<Rightarrow>
          (case attempt_once endpoint p 1 g' of
             (Some result, g'') \<Rightarrow> (result, g'')
           | (None, g'') \<Rightarrow>
               (case attempt_once endpoint p 2 g'' of
                  (Some result, g''') \<Rightarrow> (result, g''')
                | (None, g''') \<Rightarrow> ((None, Some (lit ''Max retries exceeded'')), g'''))))"
proof -
  have n: "(0::nat) + 1 = 1" "(1::nat) + 1 = 2" "(2::nat) + 1 = 3" by simp_all
  have l: "(0::nat) < MAX_RETRIES" "(1::nat) < MAX_RETRIES" "(2::nat) < MAX_RETRIES"
    "\<not> (3::nat) < MAX_RETRIES" by (simp_all add: MAX_RETRIES_def)
  note e = generate_loop_end[OF l(4), of endpoint p]
  note s2 = generate_loop_step[OF l(3), of endpoint p, unfolded n]
  note s1 = generate_loop_step[OF l(2), of endpoint p, unfolded n]
  note s0 = generate_loop_step[OF l(1), of endpoint p g, unfolded n]
  show ?thesis
    unfolding s0 s1 s2 e ..
qed

text \<open>
  Claim C7, as amended. With an API key configured, when the endpoint answers 429 to the
  first two POSTs of a call and the third is answered without an error status and with a
  candidate text, \<open>generate\<close> returns the trimmed text and no error after exactly three
  POSTs, and \<open>request_count\<close> has grown by exactly one: it counts the successful
  generations, not the attempts.
\<close>

theorem generate_retry_429:
  assumes "truthy (api_key g)"
    and "endpoint (posts g) p = Response 429 e1 b1"
    and "endpoint (posts g + 1) p = Response 429 e2 b2"
    and "endpoint (posts g + 2) p = Response status e3 (Candidates_text text)"
    and "status \<noteq> 429" and "status \<noteq> 503" and "\<not> (400 \<le> status \<and> status < 600)"
  shows "generate endpoint g p =
           ((Some (strip text), None),
            g\<lparr>posts := posts g + 3, request_count := request_count g + 1\<rparr>)"
  using assms
  by (auto simp: generate_def generate_loop_unfold3 attempt_once_def Let_def)

text \<open>
  A new client with a key and the endpoint \<open>busy_twice\<close>: the result is \<open>"Hello"\<close>,
  three POSTs were made and the counter is 1.
\<close>

theorem generate_retry_429_witness:
  "truthy (api_key (GeminiGenerator (Some (lit ''key'')))) \<and>
   generate
     busy_twice
     (GeminiGenerator (Some (lit ''key'')))
     (Translation_prompt (lit ''Urdu'') (lit ''English'') (lit ''x'')) =
   ((Some (lit ''Hello''), None),
    \<lparr>api_key = Some (lit ''key''), request_count = 1, posts = 3\<rparr>)"
proof -
  let ?g = "GeminiGenerator (Some (lit ''key''))"
  let ?ep = busy_twice
  let ?p = "Translation_prompt (lit ''Urdu'') (lit ''English'') (lit ''x'')"
  have k: "truthy (api_key ?g)"
    by (simp add: truthy_def GeminiGenerator_def lit_def)
  have s: "strip (lit '' Hello '') = lit ''Hello''"
    by (simp add: strip_def lstrip_def rstrip_def isspace_def lit_def)
  have "generate ?ep ?g ?p =
           ((Some (strip (lit '' Hello '')), None),
            ?g\<lparr>posts := posts ?g + 3, request_count := request_count ?g + 1\<rparr>)"
    by (rule generate_retry_429[where status = 200 and ?e1.0 = "[]" and ?e2.0 = "[]" and ?e3.0 = "[]"
          and ?b1.0 = No_candidates and ?b2.0 = No_candidates])
       (simp_all add: truthy_def lit_def GeminiGenerator_def busy_twice_def)
  then show ?thesis using k s by (simp add: GeminiGenerator_def)
qed

text \<open>
  The claim as stated fails for the client's counter: in the run above three attempts
  were made and \<open>request_count\<close> is 1, not 3.
\<close>

theorem generate_retry_429_counterexample:
  "posts (snd (generate
     busy_twice
     (GeminiGenerator (Some (lit ''key'')))
     (Translation_prompt (lit ''Urdu'') (lit ''English'') (lit ''x'')))) = 3 \<and>
   request_count (snd (generate
     busy_twice
     (GeminiGenerator (Some (lit ''key'')))
     (Translation_prompt (lit ''Urdu'') (lit ''English'') (lit ''x'')))) \<noteq> 3"
  by (simp add: generate_def generate_loop_unfold3 attempt_once_def Let_def truthy_def
      GeminiGenerator_def lit_def busy_twice_def)

lemma generate_keyless:
  "\<not> truthy (api_key g) \<Longrightarrow>
   generate endpoint g p = ((None, Some (lit ''API key not configured'')), g)"
  by (simp add: generate_def)

lemma attempt_once_frame:
  "attempt_once endpoint p attempt g = (r, g') \<Longrightarrow>
   api_key g' = api_key g \<and> request_count g \<le> request_count g' \<and> posts g \<le> posts g'"
  unfolding attempt_once_def Let_def
  by (auto split: http_outcome.splits json_result.splits if_splits)

lemma generate_loop_frame:
  "api_key (snd (generate_loop endpoint p attempt g)) = api_key g \<and>
   request_count g \<le> request_count (snd (generate_loop endpoint p attempt g)) \<and>
   posts g \<le> posts (snd (generate_loop endpoint p attempt g))"
proof (induction endpoint p attempt g rule: generate_loop.induct)
  case (1 endpoint p attempt g)
  show ?case
  proof (cases "attempt < MAX_RETRIES")
    case False
    then show ?thesis by (simp add: generate_loop_end)
  next
    case True
    obtain r g' where a: "attempt_once endpoint p attempt g = (r, g')"
      by (cases "attempt_once endpoint p attempt g")
    note f = attempt_once_frame[OF a]
    show ?thesis
    proof (cases r)
      case None
      with a True 1[OF True a[symmetric] None] f show ?thesis
        by (simp add: generate_loop_step)
    next
      case (Some res)
      with a True f show ?thesis by (simp add: generate_loop_step)
    qed
  qed
qed

lemma generate_frame:
  "api_key (snd (generate endpoint g p)) = api_key g \<and>
   request_count g \<le> request_count (snd (generate endpoint g p)) \<and>
   posts g \<le> posts (snd (generate endpoint g p))"
  using generate_loop_frame[of endpoint p 0 g] by (simp add: generate_def)

lemma on_exception_named:
  "message \<noteq> [] \<Longrightarrow> on_exception attempt message = Some r \<Longrightarrow> snd r \<noteq> Some []"
  by (auto simp: on_exception_def split: if_splits)

lemma attempt_once_named:
  assumes "named_errors endpoint" and "attempt_once endpoint p attempt g = (Some r, g')"
  shows "snd r \<noteq> Some []"
proof -
  have n: "case endpoint (posts g) p of
          Timeout \<Rightarrow> True
        | Request_error message \<Rightarrow> message \<noteq> []
        | Response status_code http_error body \<Rightarrow>
            (400 \<le> status_code \<and> status_code < 600 \<longrightarrow> http_error \<noteq> []) \<and>
            (case body of
               Candidates_not_str message \<Rightarrow> message \<noteq> []
             | Json_error message \<Rightarrow> message \<noteq> []
             | _ \<Rightarrow> True)"
    using assms(1) unfolding named_errors_def by blast
  have l: "lit ''Request timeout'' \<noteq> []" "lit ''No response generated'' \<noteq> []"
    by (simp_all add: lit_def)
  show ?thesis
    using assms(2) n l unfolding attempt_once_def Let_def
    by (auto split: http_outcome.splits json_result.splits if_splits dest: on_exception_named)
qed

lemma generate_loop_named:
  "named_errors endpoint \<Longrightarrow> snd (fst (generate_loop endpoint p attempt g)) \<noteq> Some []"
proof (induction endpoint p attempt g rule: generate_loop.induct)
  case (1 endpoint p attempt g)
  show ?case
  proof (cases "attempt < MAX_RETRIES")
    case False
    then show ?thesis by (simp add: generate_loop_end lit_def)
  next
    case True
    obtain r g' where a: "attempt_once endpoint p attempt g = (r, g')"
      by (cases "attempt_once endpoint p attempt g")
    show ?thesis
    proof (cases r)
      case None
      with a True 1(1)[OF True a[symmetric] None 1(2)] show ?thesis
        by (simp add: generate_loop_step)
    next
      case (Some res)
      with a attempt_once_named[OF 1(2), of p attempt g res g'] True
      show ?thesis by (simp add: generate_loop_step)
    qed
  qed
qed

lemma generate_named:
  "named_errors endpoint \<Longrightarrow> snd (fst (generate endpoint g p)) \<noteq> Some []"
  using generate_loop_named[of endpoint p 0 g] by (simp add: generate_def lit_def)

section \<open>The failure tag of \<open>detect_issues\<close>\<close>

lemma tag_distinct:
  "lit ''Translation failed for some chunks'' \<noteq> lit ''Contains uncertain translations''"
  "lit ''Translation failed for some chunks'' \<noteq> lit ''Translation too short''"
  by (simp_all add: lit_def)

lemma failed_tag_iff:
  "(lit ''Translation failed for some chunks'' \<in> set (detect_issues t)) =
   sublist (lit ''Translation unavailable'') t"
  by (simp add: detect_issues_def tag_distinct)

lemma phrase_skips_opening:
  "sublist (lit ''Translation unavailable'') (lit ''[Translation failed: '' @ rest) =
   sublist (lit ''Translation unavailable'') rest"
  by (simp add: lit_def sublist_Cons_right)

lemma phrase_skips_closing:
  "sublist (lit ''Translation unavailable'') (body @ lit ''...]'') =
   sublist (lit ''Translation unavailable'') body"
proof
  let ?P = "lit ''Translation unavailable''"
  assume "sublist ?P (body @ lit ''...]'')"
  then consider "sublist ?P body" | "sublist ?P (lit ''...]'')"
    | xs1 xs2 where "?P = xs1 @ xs2" "suffix xs1 body" "prefix xs2 (lit ''...]'')"
    by (auto simp: sublist_append)
  then show "sublist ?P body"
  proof cases
    case 2
    then have "length ?P \<le> length (lit ''...]'')" by (rule sublist_length_le)
    then show ?thesis by (simp add: lit_def)
  next
    case 3
    show ?thesis
    proof (cases xs2)
      case Nil
      with 3 show ?thesis by (simp add: suffix_imp_sublist)
    next
      case (Cons x xs)
      with 3(3) have "x = 46" by (simp add: lit_def)
      with Cons 3(1) have "46 \<in> set ?P" by (metis in_set_conv_decomp)
      then show ?thesis by (simp add: lit_def)
    qed
  qed
next
  assume "sublist (lit ''Translation unavailable'') body"
  then show "sublist (lit ''Translation unavailable'') (body @ lit ''...]'')"
    by (simp add: sublist_append)
qed

text \<open>
  Claim C10, as amended. \<open>detect_issues\<close> returns the tag "Translation failed for some
  chunks" exactly for the strings that contain "Translation unavailable". The words of
  the placeholder of a failed chunk never produce it: on the placeholder the tag appears
  exactly when the first 100 characters of the chunk's own text contain "Translation
  unavailable".
\<close>

theorem failed_tag_only_for_unavailable:
  "(lit ''Translation failed for some chunks'' \<in> set (detect_issues t)) =
     sublist (lit ''Translation unavailable'') t \<and>
   (lit ''Translation failed for some chunks'' \<in> set (detect_issues (failure_placeholder text))) =
     sublist (lit ''Translation unavailable'') (take 100 text)"
  by (simp add: failed_tag_iff failure_placeholder_def phrase_skips_opening
      phrase_skips_closing[of "take 100 text", simplified])

text \<open>
  The claim as stated fails for a chunk whose own text is "Translation unavailable": its
  placeholder contains the phrase and gets the tag.
\<close>

theorem failed_tag_only_for_unavailable_counterexample:
  "failure_placeholder (lit ''Translation unavailable'') =
     lit ''[Translation failed: Translation unavailable...]'' \<and>
   lit ''Translation failed for some chunks'' \<in>
     set (detect_issues (failure_placeholder (lit ''Translation unavailable'')))"
proof -
  have a: "failure_placeholder (lit ''Translation unavailable'') =
     lit ''[Translation failed: Translation unavailable...]''"
    by (simp add: failure_placeholder_def lit_def)
  have "sublist (lit ''Translation unavailable'')
          (lit ''[Translation failed: Translation unavailable...]'')"
    by (simp add: lit_def sublist_Cons_right)
  with a show ?thesis by (simp add: failed_tag_iff)
qed

section \<open>Reassembly of the translated chunks\<close>

lemma overlap_grid:
  "10 < (n::nat) \<Longrightarrow>
   (10 < k \<and> k \<le> n \<and> 5 dvd (n - k)) = (k = n \<or> (10 < k \<and> k \<le> n - 5 \<and> 5 dvd (n - 5 - k)))"
  by presburger

lemma set_overlap_range: "set (overlap_range m) = {k. 10 < k \<and> k \<le> m \<and> 5 dvd (m - k)}"
proof (induction m rule: overlap_range.induct)
  case (1 n)
  show ?case
  proof (cases "10 < n")
    case False
    then show ?thesis by (auto simp: overlap_range.simps[of n])
  next
    case True
    have "{k. 10 < k \<and> k \<le> n \<and> 5 dvd (n - k)} =
          insert n {k. 10 < k \<and> k \<le> n - 5 \<and> 5 dvd (n - 5 - k)}"
      using overlap_grid[OF True] by blast
    with True 1 show ?thesis by (simp add: overlap_range.simps[of n])
  qed
qed

lemma overlap_range_decreasing: "sorted_wrt (\<lambda>a b. b < a) (overlap_range m)"
proof (induction m rule: overlap_range.induct)
  case (1 n)
  show ?case
  proof (cases "10 < n")
    case True
    with 1 show ?thesis by (auto simp: set_overlap_range overlap_range.simps[of n])
  qed (simp add: overlap_range.simps[of n])
qed

lemma first_overlap_None:
  "first_overlap lower r c ks = None \<longleftrightarrow>
     (\<forall>k \<in> set ks. lower (drop (length r - k) r) \<noteq> lower (take k c))"
  by (induction ks) auto

lemma first_overlap_Some:
  "sorted_wrt (\<lambda>a b. b < a) ks \<Longrightarrow> first_overlap lower r c ks = Some k \<Longrightarrow>
     k \<in> set ks \<and> lower (drop (length r - k) r) = lower (take k c) \<and>
     (\<forall>j \<in> set ks. lower (drop (length r - j) r) = lower (take j c) \<longrightarrow> j \<le> k)"
  by (induction ks) (auto split: if_splits)

lemma matching_overlaps_range:
  "matching_overlaps lower r c =
     {k \<in> set (overlap_range (min 50 (min (length r) (length c)))).
        lower (drop (length r - k) r) = lower (take k c)}"
  by (auto simp: matching_overlaps_def set_overlap_range)

lemma first_overlap_Max:
  "first_overlap lower r c (overlap_range (min 50 (min (length r) (length c)))) =
     (if matching_overlaps lower r c = {} then None else Some (Max (matching_overlaps lower r c)))"
proof (cases "first_overlap lower r c (overlap_range (min 50 (min (length r) (length c))))")
  case None
  then have "matching_overlaps lower r c = {}"
    by (auto simp: matching_overlaps_range first_overlap_None)
  with None show ?thesis by simp
next
  case (Some k)
  let ?K = "matching_overlaps lower r c"
  from first_overlap_Some[OF overlap_range_decreasing Some]
  have k: "k \<in> ?K" "\<forall>j \<in> ?K. j \<le> k"
    by (auto simp: matching_overlaps_range)
  have "finite ?K" by (simp add: matching_overlaps_range)
  with k have "Max ?K = k" by (intro Max_eqI) auto
  with k Some show ?thesis by auto
qed

lemma combine_step_Max:
  "combine_step lower result chunk =
     (if matching_overlaps lower result chunk = {} then result @ lit '' '' @ chunk
      else result @ drop (Max (matching_overlaps lower result chunk)) chunk)"
  by (simp add: combine_step_def first_overlap_Max)

lemma combine_example:
  "combine_chunks ascii_lower
     [lit ''the quick brown fox jumps'', lit ''brown fox jumps over the lazy dog''] =
   lit ''the quick brown fox jumps over the lazy dog''"
  by (simp add: combine_chunks_def combine_step_def lit_def ascii_lower_def strip_def lstrip_def
      rstrip_def isspace_def overlap_range.simps)

text \<open>
  Claim C6, as amended. \<open>_combine_chunks\<close> returns the empty string for no chunk and
  otherwise starts with the first string, takes the other chunks in order and trims the
  final result. For each chunk the candidate overlap lengths are
  \<open>m = min(50, len(result), len(chunk))\<close>, \<open>m - 5\<close>, ... as long as they are greater than
  10 (10 itself is not tried); the chunk's remainder past the largest candidate whose
  lowercased suffix of \<open>result\<close> equals the lowercased prefix of the chunk is appended,
  and when no candidate matches the chunk is appended after a single space. The example
  of the specification holds.
\<close>

theorem combine_chunks_overlap:
  "combine_chunks lower [] = [] \<and>
   combine_chunks lower (first # rest) = strip (foldl (combine_step lower) first rest) \<and>
   combine_step lower result chunk =
     (if matching_overlaps lower result chunk = {} then result @ lit '' '' @ chunk
      else result @ drop (Max (matching_overlaps lower result chunk)) chunk) \<and>
   combine_chunks ascii_lower
     [lit ''the quick brown fox jumps'', lit ''brown fox jumps over the lazy dog''] =
   lit ''the quick brown fox jumps over the lazy dog''"
  using combine_step_Max[of lower result chunk] combine_example
  by (simp add: combine_chunks_def)

text \<open>
  The claim as stated fails: with two chunks \<open>0123456789\<close> the only candidate of the
  stated search is 10, where suffix and prefix are equal, so the stated reassembly gives
  \<open>0123456789\<close>; the program's range is empty and it appends the chunk after a space.
\<close>

theorem combine_chunks_overlap_counterexample:
  "combine_chunks ascii_lower [lit ''0123456789'', lit ''0123456789''] =
     lit ''0123456789 0123456789'' \<and>
   claimed_combine_chunks ascii_lower [lit ''0123456789'', lit ''0123456789''] =
     lit ''0123456789'' \<and>
   combine_chunks ascii_lower [lit ''0123456789'', lit ''0123456789''] \<noteq>
   claimed_combine_chunks ascii_lower [lit ''0123456789'', lit ''0123456789'']"
  by (simp add: combine_chunks_def combine_step_def claimed_combine_chunks_def
      claimed_combine_step_def lit_def ascii_lower_def strip_def lstrip_def rstrip_def isspace_def
      overlap_range.simps claimed_overlap_range.simps)

section \<open>The loop over the chunks\<close>

lemma add_chunks_ok:
  "\<exists>store'. add_chunks hash lower 256 store cs = (None, store') \<and>
     map text' (stored_chunks store') = map text' (stored_chunks store) @ map text' cs \<and>
     index_built store'"
proof (induction cs arbitrary: store)
  case Nil
  then show ?case by simp
next
  case (Cons c cs)
  show ?case
  proof (cases "embedding c")
    case (Some v)
    with Cons[of "store\<lparr>stored_chunks := stored_chunks store @ [c]\<rparr>"] show ?thesis by auto
  next
    case None
    have "(0::int) < 256" by simp
    from embed_result[OF this, of hash lower "text' c"]
    obtain v where v: "embed hash lower 256 (text' c) = Inr v" by auto
    with None Cons[of "store\<lparr>stored_chunks := stored_chunks store @ [c\<lparr>embedding := Some v\<rparr>]\<rparr>"]
    show ?thesis by auto
  qed
qed

text \<open>The loop neither reads nor writes the vector store.\<close>

lemma generate_chunk_store:
  "generate_chunk env src tgt i c pr (p\<lparr>vector_store := v\<rparr>) =
     (case generate_chunk env src tgt i c pr p of (e, pr', p') \<Rightarrow> (e, pr', p'\<lparr>vector_store := v\<rparr>))"
  by (simp add: generate_chunk_def Let_def split: prod.splits sum.splits option.splits)

lemma translate_chunk_store:
  "translate_chunk env src tgt i c pr (p\<lparr>vector_store := v\<rparr>) =
     (case translate_chunk env src tgt i c pr p of (e, pr', p') \<Rightarrow> (e, pr', p'\<lparr>vector_store := v\<rparr>))"
proof (cases "encodable (text' c)")
  case False
  then show ?thesis by (simp add: translate_chunk_def get_text_raises split: prod.splits)
next
  case enc: True
  obtain tc errs cc prev where pr: "pr = (tc, errs, cc, prev)" by (cases pr) auto
  obtain found c1 where g: "cache_get (md5 env) (cache' p) (text' c) = (found, c1)"
    by (cases "cache_get (md5 env) (cache' p) (text' c)") auto
  have u: "p\<lparr>vector_store := v, cache' := c1\<rparr> = (p\<lparr>cache' := c1\<rparr>)\<lparr>vector_store := v\<rparr>" by simp
  show ?thesis
  proof (cases "truthy (case found of None \<Rightarrow> None | Some v \<Rightarrow> v)")
    case True
    with pr g enc show ?thesis by (simp add: translate_chunk_def Let_def get_text_encodable)
  next
    case False
    with pr g enc show ?thesis
      by (simp add: translate_chunk_def Let_def u generate_chunk_store get_text_encodable)
  qed
qed

lemma translate_chunks_store:
  "translate_chunks env src tgt i cs pr (p\<lparr>vector_store := v\<rparr>) =
     (case translate_chunks env src tgt i cs pr p of (e, pr', p') \<Rightarrow> (e, pr', p'\<lparr>vector_store := v\<rparr>))"
proof (induction cs arbitrary: i pr p)
  case Nil
  then show ?case by simp
next
  case (Cons c cs)
  obtain e pr' p' where t: "translate_chunk env src tgt i c pr p = (e, pr', p')"
    by (cases "translate_chunk env src tgt i c pr p") auto
  then have "translate_chunk env src tgt i c pr (p\<lparr>vector_store := v\<rparr>) = (e, pr', p'\<lparr>vector_store := v\<rparr>)"
    by (simp add: translate_chunk_store)
  with t Cons[of "i + 1" pr' p'] show ?case by (cases e) simp_all
qed

lemma translate_document_blank:
  "chunk_document (decimal env) s CHUNK_SIZE OVERLAP_SIZE = [] \<Longrightarrow>
   translate_document env p s src tgt = (Inr ([], No_text), p)"
  by (simp add: translate_document_def)

lemma make_metadata_store:
  "make_metadata env s n pr (p\<lparr>vector_store := v\<rparr>) t = make_metadata env s n pr p t"
  by (simp add: make_metadata_def split: prod.splits)

lemma translate_document_run:
  assumes "chunk_document (decimal env) s CHUNK_SIZE OVERLAP_SIZE = cs" and "cs \<noteq> []"
    and "translate_chunks env src tgt 0 cs ([], [], 0, []) p = (e, pr, p')"
  shows "fst (translate_document env p s src tgt) =
           (case e of
              Some x \<Rightarrow> Inl x
            | None \<Rightarrow>
                Inr (combine_chunks (str_lower env) (fst pr),
                     Metadata (make_metadata env s (length cs) pr p'
                       (combine_chunks (str_lower env) (fst pr)))))"
    and "generator (snd (translate_document env p s src tgt)) = generator p'"
    and "cache' (snd (translate_document env p s src tgt)) = cache' p'"
    and "map text' (stored_chunks (vector_store (snd (translate_document env p s src tgt)))) = map text' cs"
    and "index_built (vector_store (snd (translate_document env p s src tgt)))"
proof -
  from add_chunks_ok[of "py_hash env" "str_lower env" "clear (vector_store p)" cs]
  obtain store where store: "add_chunks (py_hash env) (str_lower env) 256 (clear (vector_store p)) cs = (None, store)"
    "map text' (stored_chunks store) = map text' cs" "index_built store"
    by (auto simp: clear_def)
  have t: "translate_chunks env src tgt 0 cs ([], [], 0, []) (p\<lparr>vector_store := store\<rparr>) =
      (e, pr, p'\<lparr>vector_store := store\<rparr>)"
    using assms(3) by (simp add: translate_chunks_store)
  have d: "translate_document env p s src tgt =
     (case e of
        Some x \<Rightarrow> (Inl x, p'\<lparr>vector_store := store\<rparr>)
      | None \<Rightarrow>
          (Inr (combine_chunks (str_lower env) (fst pr),
                Metadata (make_metadata env s (length cs) pr p'
                  (combine_chunks (str_lower env) (fst pr)))),
           p'\<lparr>vector_store := store\<rparr>))"
    using assms(1,2) store(1) t
    by (cases e) (simp_all add: translate_document_def Let_def make_metadata_store)
  show "fst (translate_document env p s src tgt) =
           (case e of
              Some x \<Rightarrow> Inl x
            | None \<Rightarrow>
                Inr (combine_chunks (str_lower env) (fst pr),
                     Metadata (make_metadata env s (length cs) pr p'
                       (combine_chunks (str_lower env) (fst pr)))))"
    unfolding d by (cases e) simp_all
  show "generator (snd (translate_document env p s src tgt)) = generator p'"
    unfolding d by (cases e) simp_all
  show "cache' (snd (translate_document env p s src tgt)) = cache' p'"
    unfolding d by (cases e) simp_all
  show "map text' (stored_chunks (vector_store (snd (translate_document env p s src tgt)))) = map text' cs"
    unfolding d using store(2) by (cases e) simp_all
  show "index_built (vector_store (snd (translate_document env p s src tgt)))"
    unfolding d using store(3) by (cases e) simp_all
qed

lemma carried_over_refl: "carried_over env p p"
  by (simp add: carried_over_def cache_steps_refl)

lemma carried_over_trans: "carried_over env a b \<Longrightarrow> carried_over env b c \<Longrightarrow> carried_over env a c"
  unfolding carried_over_def using cache_steps_trans by fastforce

lemma generate_chunk_frame:
  assumes "0 < max_size (cache' p)"
    and "generate_chunk env src tgt i c (tc, errs, cc, prev) p = (e, pr', p')"
  shows "0 < max_size (cache' p') \<and> carried_over env p p' \<and> vector_store p' = vector_store p \<and>
         (e = None \<longrightarrow> (\<exists>x errs' cc' prev'. pr' = (tc @ [x], errs', cc', prev') \<and>
                            length errs' + cc' \<le> length errs + cc + 1))"
proof -
  let ?prompt = "get_translation_prompt (text' c) src tgt (if 0 < i then Some prev else None)"
  obtain tr err g where g: "generate (post env) (generator p) ?prompt = ((tr, err), g)"
    by (cases "generate (post env) (generator p) ?prompt") auto
  from generate_frame[of "post env" "generator p" ?prompt] g
  have gf: "api_key g = api_key (generator p)" "request_count (generator p) \<le> request_count g"
    "posts (generator p) \<le> posts g" by simp_all
  show ?thesis
  proof (cases "truthy err")
    case True
    with assms g gf show ?thesis
      by (auto simp: generate_chunk_def Let_def carried_over_def cache_steps_refl)
  next
    case False
    show ?thesis
    proof (cases "encodable (text' c)")
      case enc: False
      with assms g gf False show ?thesis
        by (auto simp: generate_chunk_def Let_def carried_over_def cache_steps_refl
            set_text_raises)
    next
      case enc: True
      from cache_set_ok[OF assms(1), of "md5 env" "text' c" tr]
      obtain c2 where c2: "cache_set (md5 env) (cache' p) (text' c) tr = Inr c2"
        "max_size c2 = max_size (cache' p)" by blast
      have st: "cache_steps (md5 env) (cache' p) c2" by (rule cache_steps_set[OF c2(1)])
      show ?thesis
      proof (cases tr)
        case None
        with assms g gf False c2 st enc show ?thesis
          by (auto simp: generate_chunk_def Let_def carried_over_def set_text_encodable)
      next
        case (Some t)
        with assms g gf False c2 st enc show ?thesis
          by (auto simp: generate_chunk_def Let_def carried_over_def set_text_encodable)
      qed
    qed
  qed
qed

lemma translate_chunk_frame:
  assumes "0 < max_size (cache' p)"
    and "translate_chunk env src tgt i c (tc, errs, cc, prev) p = (e, pr', p')"
  shows "0 < max_size (cache' p') \<and> carried_over env p p' \<and> vector_store p' = vector_store p \<and>
         (e = None \<longrightarrow> (\<exists>x errs' cc' prev'. pr' = (tc @ [x], errs', cc', prev') \<and>
                            length errs' + cc' \<le> length errs + cc + 1))"
proof (cases "encodable (text' c)")
  case False
  with assms show ?thesis
    by (auto simp: translate_chunk_def get_text_raises carried_over_refl)
next
  case enc: True
  obtain found c1 where g: "cache_get (md5 env) (cache' p) (text' c) = (found, c1)"
    by (cases "cache_get (md5 env) (cache' p) (text' c)") auto
  let ?p1 = "p\<lparr>cache' := c1\<rparr>"
  from cache_get_frame[of "md5 env" "cache' p" "text' c"] g
  have m: "max_size c1 = max_size (cache' p)" by simp
  from cache_steps_get[of "md5 env" "cache' p" "text' c"] g
  have s: "cache_steps (md5 env) (cache' p) c1" by simp
  then have co: "carried_over env p ?p1" by (simp add: carried_over_def)
  show ?thesis
  proof (cases "truthy (case found of None \<Rightarrow> None | Some v \<Rightarrow> v)")
    case True
    with assms g m co enc show ?thesis
      by (auto simp: translate_chunk_def Let_def get_text_encodable)
  next
    case False
    with assms(2) g enc have "generate_chunk env src tgt i c (tc, errs, cc, prev) ?p1 = (e, pr', p')"
      by (simp add: translate_chunk_def Let_def get_text_encodable)
    from generate_chunk_frame[OF _ this] assms(1) m
    have "0 < max_size (cache' p') \<and> carried_over env ?p1 p' \<and> vector_store p' = vector_store ?p1 \<and>
         (e = None \<longrightarrow> (\<exists>x errs' cc' prev'. pr' = (tc @ [x], errs', cc', prev') \<and>
                            length errs' + cc' \<le> length errs + cc + 1))" by simp
    with co carried_over_trans[of env p ?p1 p'] show ?thesis by auto
  qed
qed

lemma translate_chunks_frame:
  "0 < max_size (cache' p) \<Longrightarrow>
   translate_chunks env src tgt i cs (tc, errs, cc, prev) p = (e, pr', p') \<Longrightarrow>
   0 < max_size (cache' p') \<and> carried_over env p p' \<and> vector_store p' = vector_store p \<and>
   (e = None \<longrightarrow> (\<exists>tc' errs' cc' prev'. pr' = (tc', errs', cc', prev') \<and>
                      length tc' = length tc + length cs \<and>
                      length errs' + cc' \<le> length errs + cc + length cs))"
proof (induction cs arbitrary: i tc errs cc prev p)
  case Nil
  then show ?case by (auto simp: carried_over_refl)
next
  case (Cons c cs)
  obtain e1 pr1 p1 where s: "translate_chunk env src tgt i c (tc, errs, cc, prev) p = (e1, pr1, p1)"
    by (cases "translate_chunk env src tgt i c (tc, errs, cc, prev) p") auto
  note f = translate_chunk_frame[OF Cons.prems(1) s]
  show ?case
  proof (cases e1)
    case (Some x)
    with s Cons.prems(2) f show ?thesis by auto
  next
    case None
    with f obtain x errs1 cc1 prev1 where pr1: "pr1 = (tc @ [x], errs1, cc1, prev1)"
      "length errs1 + cc1 \<le> length errs + cc + 1" by auto
    from s None pr1 Cons.prems(2)
    have r: "translate_chunks env src tgt (i + 1) cs (tc @ [x], errs1, cc1, prev1) p1 = (e, pr', p')"
      by simp
    from Cons.IH[OF _ r] f
    have "0 < max_size (cache' p') \<and> carried_over env p1 p' \<and> vector_store p' = vector_store p1 \<and>
      (e = None \<longrightarrow> (\<exists>tc' errs' cc' prev'. pr' = (tc', errs', cc', prev') \<and>
                      length tc' = length (tc @ [x]) + length cs \<and>
                      length errs' + cc' \<le> length errs1 + cc1 + length cs))" by simp
    with f pr1(2) carried_over_trans[of env p p1 p'] show ?thesis by auto
  qed
qed

section \<open>Streaming mode\<close>

lemma stream_generate_chunk_store:
  "stream_generate_chunk env src tgt i c pr (p\<lparr>vector_store := v\<rparr>) =
     (case stream_generate_chunk env src tgt i c pr p of
        (ev, e, pr', p') \<Rightarrow> (ev, e, pr', p'\<lparr>vector_store := v\<rparr>))"
  by (simp add: stream_generate_chunk_def Let_def split: prod.splits sum.splits option.splits)

lemma stream_chunk_store:
  "stream_chunk env src tgt n i c pr (p\<lparr>vector_store := v\<rparr>) =
     (case stream_chunk env src tgt n i c pr p of
        (ev, e, pr', p') \<Rightarrow> (ev, e, pr', p'\<lparr>vector_store := v\<rparr>))"
proof (cases "encodable (text' c)")
  case False
  then show ?thesis by (simp add: stream_chunk_def get_text_raises split: prod.splits)
next
  case enc: True
  obtain parts prev where pr: "pr = (parts, prev)" by (cases pr) auto
  obtain found c1 where g: "cache_get (md5 env) (cache' p) (text' c) = (found, c1)"
    by (cases "cache_get (md5 env) (cache' p) (text' c)") auto
  have u: "p\<lparr>vector_store := v, cache' := c1\<rparr> = (p\<lparr>cache' := c1\<rparr>)\<lparr>vector_store := v\<rparr>" by simp
  show ?thesis
  proof (cases "truthy (case found of None \<Rightarrow> None | Some v \<Rightarrow> v)")
    case True
    with pr g enc show ?thesis by (simp add: stream_chunk_def Let_def get_text_encodable)
  next
    case False
    with pr g enc show ?thesis
      by (simp add: stream_chunk_def Let_def u stream_generate_chunk_store get_text_encodable
          split: prod.splits)
  qed
qed

lemma stream_chunks_store:
  "stream_chunks env src tgt n i cs pr (p\<lparr>vector_store := v\<rparr>) =
     (case stream_chunks env src tgt n i cs pr p of
        (ev, e, pr', p') \<Rightarrow> (ev, e, pr', p'\<lparr>vector_store := v\<rparr>))"
proof (induction cs arbitrary: i pr p)
  case Nil
  then show ?case by simp
next
  case (Cons c cs)
  obtain ev e pr' p' where t: "stream_chunk env src tgt n i c pr p = (ev, e, pr', p')"
    by (cases "stream_chunk env src tgt n i c pr p") auto
  then have "stream_chunk env src tgt n i c pr (p\<lparr>vector_store := v\<rparr>) = (ev, e, pr', p'\<lparr>vector_store := v\<rparr>)"
    by (simp add: stream_chunk_store)
  with t Cons[of "i + 1" pr' p'] show ?case by (cases e) (simp_all split: prod.splits)
qed

lemma translate_streaming_run:
  assumes "chunk_document (decimal env) s CHUNK_SIZE OVERLAP_SIZE = cs" and "cs \<noteq> []"
    and "stream_chunks env src tgt (length cs) 0 cs ([], []) p = (events, e, pr, p')"
  shows "fst (translate_streaming env p s src tgt) =
           (case e of
              Some x \<Rightarrow> (Start (length cs) (length s) # events, Some x)
            | None \<Rightarrow>
                (Start (length cs) (length s) # events @
                   [Complete (combine_chunks (str_lower env) (fst pr))
                      (length (cache (cache' p'))) (hits (cache' p')) (misses (cache' p'))],
                 None))"
proof -
  from add_chunks_ok[of "py_hash env" "str_lower env" "clear (vector_store p)" cs]
  obtain store where store: "add_chunks (py_hash env) (str_lower env) 256 (clear (vector_store p)) cs = (None, store)"
    by auto
  have t: "stream_chunks env src tgt (length cs) 0 cs ([], []) (p\<lparr>vector_store := store\<rparr>) =
      (events, e, pr, p'\<lparr>vector_store := store\<rparr>)"
    using assms(3) by (simp add: stream_chunks_store)
  show ?thesis
    using assms(1,2) store t
    by (cases e) (simp_all add: translate_streaming_def Let_def)
qed
section \<open>Two example documents\<close>

lemma hello_chunks:
  "chunk_document ascii_digit (lit ''Hello.'') CHUNK_SIZE OVERLAP_SIZE =
     [\<lparr>id' = 0, text' = lit ''Hello.'', start_pos = 0, end_pos = 7, page_number = Some 1,
       embedding = None\<rparr>]"
  by (simp add: chunk_document_def document_sentences_def read_pages_def
      re_split_pages.simps match_marker_def add_part_def split_into_sentences_def strip_def
      lstrip_def rstrip_def isspace_def is_sentence_end_def lit_def add_sentence_def
      close_chunk_def page_at_def Let_def CHUNK_SIZE_def OVERLAP_SIZE_def)

lemma strip_of_trimmed: "trimmed s \<Longrightarrow> strip s = s"
  using strip_around_trimmed[of s "[]" "[]"] by (simp add: lstrip_def rstrip_def)

lemma no_marker_without_dash: "45 \<notin> set s \<Longrightarrow> match_marker digit s = None"
  by (cases s) (auto simp: match_marker_def lit_def)

lemma re_split_pages_no_dash: "45 \<notin> set s \<Longrightarrow> re_split_pages digit cur s = [cur @ s]"
proof (induction s arbitrary: cur)
  case Nil
  then show ?case by (simp add: re_split_pages.simps)
next
  case (Cons c cs)
  from Cons.prems have "match_marker digit (c # cs) = None" by (rule no_marker_without_dash)
  with Cons show ?case by (simp add: re_split_pages.simps[of digit cur "c # cs"])
qed

lemma read_pages_no_dash: "45 \<notin> set s \<Longrightarrow> read_pages digit s = (s, [(0, 1)], 1)"
  by (simp add: read_pages_def re_split_pages_no_dash add_part_def no_marker_without_dash)

lemma scan_word:
  "\<forall>c \<in> set w. \<not> isspace c \<Longrightarrow> w \<noteq> [] \<Longrightarrow>
   re_split_sentences (In_text e) cur (w @ rest) =
     re_split_sentences (In_text (is_sentence_end (last w))) (cur @ w) rest"
proof (induction w arbitrary: cur e)
  case Nil
  then show ?case by simp
next
  case (Cons c w)
  show ?case
  proof (cases "w = []")
    case True
    with Cons.prems show ?thesis by simp
  next
    case False
    with Cons show ?thesis by simp
  qed
qed

lemma two_chunk_sentences:
  "document_sentences ascii_digit two_chunk_text = [replicate 1199 97 @ [46], [98, 46]]"
proof -
  let ?w = "replicate 1199 (97::nat) @ [46]"
  have nd: "45 \<notin> set two_chunk_text" by (simp add: two_chunk_text_def lit_def)
  have w: "\<forall>c \<in> set ?w. \<not> isspace c" "?w \<noteq> []" by (auto simp: isspace_def)
  have t: "two_chunk_text = ?w @ [32, 98, 46]" by (simp add: two_chunk_text_def lit_def)
  have "re_split_sentences (In_text False) [] (?w @ [32, 98, 46]) =
        re_split_sentences (In_text (is_sentence_end (last ?w))) ([] @ ?w) [32, 98, 46]"
    by (rule scan_word[OF w])
  also have "... = [?w, [98, 46]]" by (simp add: is_sentence_end_def isspace_def)
  finally have r: "re_split_sentences (In_text False) [] two_chunk_text = [?w, [98, 46]]"
    using t by simp
  have tw: "trimmed ?w" by (simp add: trimmed_def isspace_def hd_append)
  have tb: "trimmed [98, 46]" by (simp add: trimmed_def isspace_def)
  show ?thesis
    using tw unfolding document_sentences_def read_pages_no_dash[OF nd] split_into_sentences_def
    by (simp add: r strip_of_trimmed[OF tw] strip_of_trimmed[OF tb] trimmed_def)
qed

lemma two_chunk_chunks:
  "chunk_document ascii_digit two_chunk_text CHUNK_SIZE OVERLAP_SIZE =
     [\<lparr>id' = 0, text' = replicate 1199 97 @ [46], start_pos = 0, end_pos = 1201,
       page_number = Some 1, embedding = None\<rparr>,
      \<lparr>id' = 1, text' = replicate 149 97 @ [46, 32, 98, 46], start_pos = 1051, end_pos = 1205,
       page_number = Some 1, embedding = None\<rparr>]"
proof -
  let ?w = "replicate 1199 (97::nat) @ [46]"
  let ?v = "replicate 149 (97::nat) @ [46, 32, 98, 46]"
  have nd: "45 \<notin> set two_chunk_text" by (simp add: two_chunk_text_def lit_def)
  have ne: "two_chunk_text \<noteq> []" by (simp add: two_chunk_text_def lit_def)
  have tt: "trimmed two_chunk_text"
    by (simp add: two_chunk_text_def lit_def trimmed_def isspace_def hd_append)
  have st: "strip two_chunk_text \<noteq> []" using strip_of_trimmed[OF tt] ne by simp
  have tw: "trimmed ?w" by (simp add: trimmed_def isspace_def hd_append)
  have tv: "trimmed ?v" by (simp add: trimmed_def isspace_def hd_append)
  have s1: "strip (replicate 1199 97 @ [46, 32]) = ?w" using strip_space_end[of ?w] strip_of_trimmed[OF tw] by simp
  have s2: "strip (replicate 149 97 @ [46, 32, 98, 46, 32]) = ?v" using strip_space_end[of ?v] strip_of_trimmed[OF tv] by simp
  have d: "drop 1050 ?w = replicate 149 (97::nat) @ [46]" by simp
  have pp: "fst (snd (read_pages ascii_digit two_chunk_text)) = [(0, 1)]"
    by (simp add: read_pages_no_dash[OF nd])
  let ?st0 = "\<lparr>chunks' = [], current_chunk = [], current_start = 0, chunk_id = 0\<rparr>"
  have a1: "add_sentence [(0, 1)] 1200 150 ?st0 ?w =
     \<lparr>chunks' = [], current_chunk = ?w @ [32], current_start = 0, chunk_id = 0\<rparr>"
    by (simp add: add_sentence_def lit_space)
  have c1: "close_chunk [(0, 1)] \<lparr>chunks' = [], current_chunk = ?w @ [32], current_start = 0, chunk_id = 0\<rparr> =
     \<lparr>chunks' = [\<lparr>id' = 0, text' = ?w, start_pos = 0, end_pos = 1201, page_number = Some 1,
                   embedding = None\<rparr>],
       current_chunk = ?w @ [32], current_start = 0, chunk_id = 1\<rparr>"
    using tw by (simp add: close_chunk_def s1 page_at_def trimmed_def)
  have a2: "add_sentence [(0, 1)] 1200 150
      \<lparr>chunks' = [], current_chunk = ?w @ [32], current_start = 0, chunk_id = 0\<rparr> [98, 46] =
     \<lparr>chunks' = [\<lparr>id' = 0, text' = ?w, start_pos = 0, end_pos = 1201, page_number = Some 1,
                   embedding = None\<rparr>],
       current_chunk = ?v @ [32], current_start = 1051, chunk_id = 1\<rparr>"
    unfolding add_sentence_def c1 Let_def by (simp add: lit_space)
  have c2: "close_chunk [(0, 1)]
      \<lparr>chunks' = [\<lparr>id' = 0, text' = ?w, start_pos = 0, end_pos = 1201, page_number = Some 1,
                   embedding = None\<rparr>],
       current_chunk = ?v @ [32], current_start = 1051, chunk_id = 1\<rparr> =
     \<lparr>chunks' = [\<lparr>id' = 0, text' = ?w, start_pos = 0, end_pos = 1201, page_number = Some 1,
                   embedding = None\<rparr>,
                 \<lparr>id' = 1, text' = ?v, start_pos = 1051, end_pos = 1205, page_number = Some 1,
                   embedding = None\<rparr>],
       current_chunk = ?v @ [32], current_start = 1051, chunk_id = 2\<rparr>"
    using tv by (simp add: close_chunk_def s2 page_at_def trimmed_def)
  have "chunks' (close_chunk [(0, 1)]
      (foldl (add_sentence [(0, 1)] 1200 150) ?st0 [?w, [98, 46]])) =
     [\<lparr>id' = 0, text' = ?w, start_pos = 0, end_pos = 1201, page_number = Some 1,
       embedding = None\<rparr>,
      \<lparr>id' = 1, text' = ?v, start_pos = 1051, end_pos = 1205, page_number = Some 1,
       embedding = None\<rparr>]"
    by (simp only: foldl.simps a1 a2 c2 chunker.simps)
  then show ?thesis
    using ne st
    by (simp add: chunk_document_def Let_def pp two_chunk_sentences CHUNK_SIZE_def OVERLAP_SIZE_def)
qed

section \<open>Failed chunks and the missing API key\<close>

lemma encodable_replicate: "c < 55296 \<Longrightarrow> encodable (replicate n c @ s) = encodable s"
  by (induction n) (simp_all add: encodable_def)

lemma encodable_examples:
  "encodable (lit ''Hello.'')"
  "encodable (replicate 1199 97 @ [46])"
  "encodable (replicate 149 97 @ [46, 32, 98, 46])"
  by (simp_all add: encodable_replicate) (simp_all add: encodable_def lit_def)

lemma keyless_chunk:
  assumes "\<not> truthy (api_key (generator p))" and "cache (cache' p) = []"
    and "encodable (text' c)"
  shows "translate_chunk env src tgt i c (tc, errs, cc, prev) p =
     (None,
      (tc @ [failure_placeholder (text' c)], errs @ [(id' c, lit ''API key not configured'')], cc, prev),
      p\<lparr>cache' := (cache' p)\<lparr>misses := misses (cache' p) + 1\<rparr>\<rparr>)"
proof -
  have m: "truthy (Some (lit ''API key not configured''))"
    "str_of (Some (lit ''API key not configured'')) = lit ''API key not configured''"
    by (simp_all add: truthy_def str_of_def lit_def)
  have g: "get_text (md5 env) (cache' p) (text' c) =
      Inr (None, (cache' p)\<lparr>misses := misses (cache' p) + 1\<rparr>)"
    using assms(2,3) by (simp add: get_text_encodable cache_get_def)
  have n: "\<not> truthy None" by (simp add: truthy_def)
  show ?thesis
    using assms(1) m n
    by (simp add: translate_chunk_def generate_chunk_def g generate_keyless Let_def)
qed

lemma keyless_chunks:
  "\<not> truthy (api_key (generator p)) \<Longrightarrow> cache (cache' p) = [] \<Longrightarrow>
   list_all (\<lambda>c. encodable (text' c)) cs \<Longrightarrow>
   translate_chunks env src tgt i cs (tc, errs, cc, prev) p =
     (None,
      (tc @ map (\<lambda>c. failure_placeholder (text' c)) cs,
       errs @ map (\<lambda>c. (id' c, lit ''API key not configured'')) cs, cc, prev),
      p\<lparr>cache' := (cache' p)\<lparr>misses := misses (cache' p) + length cs\<rparr>\<rparr>)"
proof (induction cs arbitrary: i tc errs p)
  case Nil
  then show ?case by simp
next
  case (Cons c cs)
  let ?p1 = "p\<lparr>cache' := (cache' p)\<lparr>misses := misses (cache' p) + 1\<rparr>\<rparr>"
  have k: "\<not> truthy (api_key (generator ?p1))" "cache (cache' ?p1) = []"
    using Cons.prems by simp_all
  have en: "encodable (text' c)" "list_all (\<lambda>c. encodable (text' c)) cs"
    using Cons.prems(3) by simp_all
  have ih: "translate_chunks env src tgt (i + 1) cs
      (tc @ [failure_placeholder (text' c)], errs @ [(id' c, lit ''API key not configured'')], cc, prev) ?p1 =
     (None,
      ((tc @ [failure_placeholder (text' c)]) @ map (\<lambda>c. failure_placeholder (text' c)) cs,
       (errs @ [(id' c, lit ''API key not configured'')]) @
         map (\<lambda>c. (id' c, lit ''API key not configured'')) cs, cc, prev),
      ?p1\<lparr>cache' := (cache' ?p1)\<lparr>misses := misses (cache' ?p1) + length cs\<rparr>\<rparr>)"
    by (rule Cons.IH[OF k en(2)])
  have st: "translate_chunk env src tgt i c (tc, errs, cc, prev) p =
     (None,
      (tc @ [failure_placeholder (text' c)], errs @ [(id' c, lit ''API key not configured'')], cc, prev),
      ?p1)"
    by (rule keyless_chunk[OF Cons.prems(1,2) en(1)])
  show ?case using ih st by simp
qed

lemma keyless_run:
  assumes "\<not> truthy (api_key (generator p))" and "cache (cache' p) = []"
    and "chunk_document (decimal env) s CHUNK_SIZE OVERLAP_SIZE = cs" and "cs \<noteq> []"
    and "list_all (\<lambda>c. encodable (text' c)) cs"
  shows "fst (translate_document env p s src tgt) =
     Inr (combine_chunks (str_lower env) (map (\<lambda>c. failure_placeholder (text' c)) cs),
          Metadata (make_metadata env s (length cs)
            (map (\<lambda>c. failure_placeholder (text' c)) cs,
             map (\<lambda>c. (id' c, lit ''API key not configured'')) cs, 0, [])
            (p\<lparr>cache' := (cache' p)\<lparr>misses := misses (cache' p) + length cs\<rparr>\<rparr>)
            (combine_chunks (str_lower env) (map (\<lambda>c. failure_placeholder (text' c)) cs))))"
    and "generator (snd (translate_document env p s src tgt)) = generator p"
    and "cache' (snd (translate_document env p s src tgt)) =
           (cache' p)\<lparr>misses := misses (cache' p) + length cs\<rparr>"
  using translate_document_run(1,2,3)[OF assms(3,4)
      keyless_chunks[OF assms(1,2,5), of env src tgt 0 "[]" "[]" 0 "[]"]]
  by simp_all

lemma failed_chunk_blocking:
  assumes "\<not> truthy (case fst (cache_get (md5 env) (cache' p) (text' chunk)) of
                       None \<Rightarrow> None | Some v \<Rightarrow> v)"
    and "fst (generate (post env) (generator p)
           (get_translation_prompt (text' chunk) src tgt
              (if 0 < i then Some prev else None))) = (translation, Some message)"
    and "message \<noteq> []" and "encodable (text' chunk)"
  shows "translate_chunks env src tgt i (chunk # rest) (tc, errs, cc, prev) p =
     translate_chunks env src tgt (i + 1) rest
       (tc @ [failure_placeholder (text' chunk)], errs @ [(id' chunk, message)], cc, prev)
       (p\<lparr>cache' := snd (cache_get (md5 env) (cache' p) (text' chunk)),
          generator := snd (generate (post env) (generator p)
             (get_translation_prompt (text' chunk) src tgt
                (if 0 < i then Some prev else None)))\<rparr>)"
proof -
  let ?q = "get_translation_prompt (text' chunk) src tgt (if 0 < i then Some prev else None)"
  obtain found c1 where g: "cache_get (md5 env) (cache' p) (text' chunk) = (found, c1)"
    by (cases "cache_get (md5 env) (cache' p) (text' chunk)") auto
  obtain g1 where r: "generate (post env) (generator p) ?q = ((translation, Some message), g1)"
    using assms(2) by (cases "generate (post env) (generator p) ?q") auto
  have m: "truthy (Some message)" "str_of (Some message) = message"
    using assms(3) by (simp_all add: truthy_def str_of_def)
  have "translate_chunk env src tgt i chunk (tc, errs, cc, prev) p =
     (None, (tc @ [failure_placeholder (text' chunk)], errs @ [(id' chunk, message)], cc, prev),
      p\<lparr>cache' := c1, generator := g1\<rparr>)"
    using assms(1,4) g r m
    by (simp add: translate_chunk_def generate_chunk_def Let_def get_text_encodable)
  then show ?thesis using g r by simp
qed

lemma failed_chunk_streaming:
  assumes "\<not> truthy (case fst (cache_get (md5 env) (cache' p) (text' chunk)) of
                       None \<Rightarrow> None | Some v \<Rightarrow> v)"
    and "fst (generate (post env) (generator p)
           (get_translation_prompt (text' chunk) src tgt
              (if 0 < i then Some prev else None))) = (translation, Some message)"
    and "message \<noteq> []" and "encodable (text' chunk)"
  shows "stream_chunks env src tgt n i (chunk # rest) (parts, prev) p =
     (case stream_chunks env src tgt n (i + 1) rest (parts @ [text' chunk], prev)
             (p\<lparr>cache' := snd (cache_get (md5 env) (cache' p) (text' chunk)),
                generator := snd (generate (post env) (generator p)
                   (get_translation_prompt (text' chunk) src tgt
                      (if 0 < i then Some prev else None)))\<rparr>) of
        (events, r) \<Rightarrow> (Progress (i + 1) n # Chunk_error (id' chunk) message # events, r))"
proof -
  let ?q = "get_translation_prompt (text' chunk) src tgt (if 0 < i then Some prev else None)"
  obtain found c1 where g: "cache_get (md5 env) (cache' p) (text' chunk) = (found, c1)"
    by (cases "cache_get (md5 env) (cache' p) (text' chunk)") auto
  obtain g1 where r: "generate (post env) (generator p) ?q = ((translation, Some message), g1)"
    using assms(2) by (cases "generate (post env) (generator p) ?q") auto
  have m: "truthy (Some message)" "str_of (Some message) = message"
    using assms(3) by (simp_all add: truthy_def str_of_def)
  have "stream_chunk env src tgt n i chunk (parts, prev) p =
     ([Progress (i + 1) n, Chunk_error (id' chunk) message], None, (parts @ [text' chunk], prev),
      p\<lparr>cache' := c1, generator := g1\<rparr>)"
    using assms(1,4) g r m
    by (simp add: stream_chunk_def stream_generate_chunk_def Let_def get_text_encodable)
  then show ?thesis using g r by (simp split: prod.splits)
qed

lemma hello_document:
  "chunk_document (decimal (example_env endpoint)) (lit ''Hello.'') CHUNK_SIZE OVERLAP_SIZE =
     [hello_chunk]"
  by (simp add: example_env_def hello_chunks hello_chunk_def)

lemma two_chunk_document:
  "chunk_document (decimal (example_env endpoint)) two_chunk_text CHUNK_SIZE OVERLAP_SIZE =
     [\<lparr>id' = 0, text' = replicate 1199 97 @ [46], start_pos = 0, end_pos = 1201,
       page_number = Some 1, embedding = None\<rparr>,
      \<lparr>id' = 1, text' = replicate 149 97 @ [46, 32, 98, 46], start_pos = 1051, end_pos = 1205,
       page_number = Some 1, embedding = None\<rparr>]"
  by (simp add: example_env_def two_chunk_chunks)

lemma keyless_new_pipeline:
  "\<not> truthy (api_key (generator (RAGTranslationPipeline None)))"
  "cache (cache' (RAGTranslationPipeline None)) = []"
  "max_size (cache' (RAGTranslationPipeline None)) = 100"
  by (simp_all add: RAGTranslationPipeline_def GeminiGenerator_def TranslationCache_def truthy_def
      CACHE_SIZE_def)

lemma named_errors_always_ok: "named_errors always_ok"
  by (simp add: named_errors_def always_ok_def)

lemma keyless_new_facts:
  "fst (cache_get hk (cache' (RAGTranslationPipeline None)) t) = None"
  "snd (cache_get hk (cache' (RAGTranslationPipeline None)) t) =
     \<lparr>cache = [], max_size = 100, hits = 0, misses = 1\<rparr>"
  "fst (generate endpoint (generator (RAGTranslationPipeline None)) q) =
     (None, Some (lit ''API key not configured''))"
  "snd (generate endpoint (generator (RAGTranslationPipeline None)) q) =
     generator (RAGTranslationPipeline None)"
  "(RAGTranslationPipeline None)\<lparr>cache' := c, generator := generator (RAGTranslationPipeline None)\<rparr> =
     (RAGTranslationPipeline None)\<lparr>cache' := c\<rparr>"
  by (simp_all add: cache_get_def generate_keyless keyless_new_pipeline)
     (simp_all add: RAGTranslationPipeline_def TranslationCache_def CACHE_SIZE_def)

lemma hello_chunk_fields: "text' hello_chunk = lit ''Hello.''" "id' hello_chunk = 0"
  by (simp_all add: hello_chunk_def)

lemma new_pipeline_with_key:
  "(RAGTranslationPipeline (Some (lit ''k'')) :: ustr rag_pipeline) =
     \<lparr>vector_store = \<lparr>stored_chunks = [], index_built = False\<rparr>,
      generator = \<lparr>api_key = Some (lit ''k''), request_count = 0, posts = 0\<rparr>,
      cache' = \<lparr>cache = [], max_size = 100, hits = 0, misses = 0\<rparr>\<rparr>"
  by (simp add: RAGTranslationPipeline_def GeminiGenerator_def TranslationCache_def CACHE_SIZE_def)

text \<open>
  An exception with an empty message on each of the three attempts: \<open>generate\<close> returns
  \<open>(None, '')\<close>, which the loops take for a success.
\<close>

lemma nameless_generate:
  "truthy (api_key g) \<Longrightarrow>
   generate nameless_error g q = ((None, Some []), g\<lparr>posts := posts g + 3\<rparr>)"
  by (simp add: generate_def generate_loop_unfold3 attempt_once_def nameless_error_def
      on_exception_def MAX_RETRIES_def)

lemma nameless_chunk_blocking:
  assumes "truthy (api_key (generator p))" and "cache (cache' p) = []"
    and "0 < max_size (cache' p)" and "encodable (text' c)" and "post env = nameless_error"
  shows "translate_chunks env src tgt i (c # rest) (tc, errs, cc, prev) p =
     (Some TypeError, (tc, errs, cc, prev),
      p\<lparr>generator := (generator p)\<lparr>posts := posts (generator p) + 3\<rparr>,
         cache' := (cache' p)\<lparr>misses := misses (cache' p) + 1,
                               cache := [(md5 env (text' c), None)]\<rparr>\<rparr>)"
proof -
  have g: "get_text (md5 env) (cache' p) (text' c) =
      Inr (None, (cache' p)\<lparr>misses := misses (cache' p) + 1\<rparr>)"
    using assms(2,4) by (simp add: get_text_encodable cache_get_def)
  have n: "\<not> truthy None" "\<not> truthy (Some [])" by (simp_all add: truthy_def)
  have "translate_chunk env src tgt i c (tc, errs, cc, prev) p =
     (Some TypeError, (tc, errs, cc, prev),
      p\<lparr>generator := (generator p)\<lparr>posts := posts (generator p) + 3\<rparr>,
         cache' := (cache' p)\<lparr>misses := misses (cache' p) + 1,
                               cache := [(md5 env (text' c), None)]\<rparr>\<rparr>)"
    using assms n
    by (simp add: translate_chunk_def generate_chunk_def g nameless_generate Let_def
        set_text_encodable cache_set_def)
  then show ?thesis by simp
qed

lemma nameless_chunk_streaming:
  assumes "truthy (api_key (generator p))" and "cache (cache' p) = []"
    and "0 < max_size (cache' p)" and "encodable (text' c)" and "post env = nameless_error"
  shows "stream_chunks env src tgt n i (c # rest) (parts, prev) p =
     ([Progress (i + 1) n], Some TypeError, (parts, prev),
      p\<lparr>generator := (generator p)\<lparr>posts := posts (generator p) + 3\<rparr>,
         cache' := (cache' p)\<lparr>misses := misses (cache' p) + 1,
                               cache := [(md5 env (text' c), None)]\<rparr>\<rparr>)"
proof -
  have g: "get_text (md5 env) (cache' p) (text' c) =
      Inr (None, (cache' p)\<lparr>misses := misses (cache' p) + 1\<rparr>)"
    using assms(2,4) by (simp add: get_text_encodable cache_get_def)
  have n: "\<not> truthy None" "\<not> truthy (Some [])" by (simp_all add: truthy_def)
  have "stream_chunk env src tgt n i c (parts, prev) p =
     ([Progress (i + 1) n], Some TypeError, (parts, prev),
      p\<lparr>generator := (generator p)\<lparr>posts := posts (generator p) + 3\<rparr>,
         cache' := (cache' p)\<lparr>misses := misses (cache' p) + 1,
                               cache := [(md5 env (text' c), None)]\<rparr>\<rparr>)"
    using assms n
    by (simp add: stream_chunk_def stream_generate_chunk_def g nameless_generate Let_def
        set_text_encodable cache_set_def)
  then show ?thesis by simp
qed

text \<open>
  Claim C1 says that in both modes a failed chunk is replaced by the placeholder and
  never ends the run. The code does otherwise at two inputs.
  \<^enum> The text \<open>Hello.\<close> on a pipeline without an API key: \<open>translate_document\<close> returns
    the placeholder, and \<open>translate_streaming\<close> on the same input ends with the
    chunk's own text \<open>Hello.\<close> in place of it.
  \<^enum> The two chunks of \<open>two_chunk_text\<close>, an API key, and an endpoint whose exceptions
    have an empty message: \<open>generate\<close> returns \<open>(None, '')\<close> after three POSTs, the
    test \<open>if error\<close> fails, and \<open>translation[-200:]\<close> raises \<open>TypeError\<close> out of both
    loops at the first chunk; the second chunk is never reached.
\<close>

theorem chunk_failure_divergence:
  "result_text (fst (translate_document (example_env always_ok)
       (RAGTranslationPipeline None :: ustr rag_pipeline) (lit ''Hello.'') (lit ''Urdu'')
       (lit ''English''))) = Some (lit ''[Translation failed: Hello....]'') \<and>
   fst (translate_streaming (example_env always_ok)
       (RAGTranslationPipeline None :: ustr rag_pipeline) (lit ''Hello.'') (lit ''Urdu'')
       (lit ''English'')) =
     ([Start 1 6, Progress 1 1, Chunk_error 0 (lit ''API key not configured''),
       Complete (lit ''Hello.'') 0 0 1], None) \<and>
   fst (translate_document (example_env nameless_error)
       (RAGTranslationPipeline (Some (lit ''k'')) :: ustr rag_pipeline) two_chunk_text
       (lit ''Urdu'') (lit ''English'')) = Inl TypeError \<and>
   posts (generator (snd (translate_document (example_env nameless_error)
       (RAGTranslationPipeline (Some (lit ''k'')) :: ustr rag_pipeline) two_chunk_text
       (lit ''Urdu'') (lit ''English'')))) = 3 \<and>
   fst (translate_streaming (example_env nameless_error)
       (RAGTranslationPipeline (Some (lit ''k'')) :: ustr rag_pipeline) two_chunk_text
       (lit ''Urdu'') (lit ''English'')) =
     ([Start 2 1203, Progress 1 2], Some TypeError)"
proof -
  let ?E = "example_env always_ok"
  let ?F = "example_env nameless_error"
  let ?P = "RAGTranslationPipeline None :: ustr rag_pipeline"
  let ?K = "RAGTranslationPipeline (Some (lit ''k'')) :: ustr rag_pipeline"
  let ?U = "lit ''Urdu''" and ?N = "lit ''English''"
  let ?M = "lit ''API key not configured''"
  let ?c0 = "\<lparr>id' = 0, text' = replicate 1199 97 @ [46], start_pos = 0, end_pos = 1201,
       page_number = Some 1, embedding = None\<rparr>"
  let ?c1 = "\<lparr>id' = 1, text' = replicate 149 97 @ [46, 32, 98, 46], start_pos = 1051,
       end_pos = 1205, page_number = Some 1, embedding = None\<rparr>"
  have n: "[hello_chunk] \<noteq> []" "[?c0, ?c1] \<noteq> []" by simp_all
  have en: "list_all (\<lambda>c. encodable (text' c)) [hello_chunk]"
    by (simp add: hello_chunk_fields encodable_examples)
  have c: "combine_chunks (str_lower ?E) [lit ''[Translation failed: Hello....]''] =
      lit ''[Translation failed: Hello....]''"
    "combine_chunks (str_lower ?E) [lit ''Hello.''] = lit ''Hello.''"
    by (simp_all add: combine_chunks_def strip_def lstrip_def rstrip_def isspace_def lit_def)
  have f: "failure_placeholder (lit ''Hello.'') = lit ''[Translation failed: Hello....]''"
    by (simp add: failure_placeholder_def lit_def)
  have 1: "result_text (fst (translate_document ?E ?P (lit ''Hello.'') ?U ?N)) =
      Some (lit ''[Translation failed: Hello....]'')"
    using keyless_run(1)[OF keyless_new_pipeline(1,2) hello_document n(1) en,
        where src = ?U and tgt = ?N]
    by (simp add: result_text_def hello_chunk_fields f c)
  have h1: "\<not> truthy (case fst (cache_get (md5 ?E) (cache' ?P) (text' hello_chunk)) of
                None \<Rightarrow> None | Some v \<Rightarrow> v)"
    by (simp add: keyless_new_facts truthy_def)
  have h2: "fst (generate (post ?E) (generator ?P)
          (get_translation_prompt (text' hello_chunk) ?U ?N (if (0::nat) < 0 then Some [] else None))) =
     (None, Some ?M)"
    by (simp add: keyless_new_facts)
  have h3: "?M \<noteq> []" by (simp add: lit_def)
  have h4: "encodable (text' hello_chunk)" by (simp add: hello_chunk_fields encodable_examples)
  have s: "stream_chunks ?E ?U ?N (length [hello_chunk]) 0 [hello_chunk] ([], []) ?P =
     ([Progress 1 1, Chunk_error 0 ?M], None, ([lit ''Hello.''], []),
      ?P\<lparr>cache' := \<lparr>cache = [], max_size = 100, hits = 0, misses = 1\<rparr>\<rparr>)"
    using failed_chunk_streaming[OF h1 h2 h3 h4, where n = "length [hello_chunk]"
        and rest = "[]" and parts = "[]"]
    by (simp add: keyless_new_facts hello_chunk_fields)
  have 2: "fst (translate_streaming ?E ?P (lit ''Hello.'') ?U ?N) =
     ([Start 1 6, Progress 1 1, Chunk_error 0 ?M, Complete (lit ''Hello.'') 0 0 1], None)"
    using translate_streaming_run[OF hello_document n(1) s] c(2)
    by (simp add: lit_def)
  have k: "truthy (api_key (generator ?K))" "cache (cache' ?K) = []"
    "0 < max_size (cache' ?K)" "posts (generator ?K) = 0"
    unfolding new_pipeline_with_key by (simp_all add: truthy_def lit_def)
  have p: "post ?F = nameless_error" by (simp add: example_env_def)
  have e0: "encodable (text' ?c0)" by (simp add: encodable_examples)
  note b = nameless_chunk_blocking[OF k(1,2,3) e0 p, where src = ?U and tgt = ?N and i = 0
      and rest = "[?c1]" and tc = "[]" and errs = "[]" and cc = 0 and prev = "[]"]
  note t = nameless_chunk_streaming[OF k(1,2,3) e0 p, where src = ?U and tgt = ?N
      and n = "length [?c0, ?c1]" and i = 0 and rest = "[?c1]" and parts = "[]" and prev = "[]"]
  have 3: "fst (translate_document ?F ?K two_chunk_text ?U ?N) = Inl TypeError"
    using translate_document_run(1)[OF two_chunk_document n(2) b] by simp
  have 4: "posts (generator (snd (translate_document ?F ?K two_chunk_text ?U ?N))) = 3"
    using translate_document_run(2)[OF two_chunk_document n(2) b] k(4) by simp
  have l: "length two_chunk_text = 1203" by (simp add: two_chunk_text_def lit_def)
  have 5: "fst (translate_streaming ?F ?K two_chunk_text ?U ?N) =
     ([Start 2 1203, Progress 1 2], Some TypeError)"
    using translate_streaming_run[OF two_chunk_document n(2) t] l by simp
  show ?thesis by (intro conjI 1 2 3 4 5)
qed
section \<open>A run without an API key\<close>

text \<open>
  Without a key every chunk is either served from the cache or fails with the message
  of \<open>generate\<close>; the loop raises only for a chunk that cannot be encoded, and it never
  changes the generation client.
\<close>

lemma keyless_chunk_any:
  assumes "\<not> truthy (api_key (generator p))"
    and "translate_chunk env src tgt i c (tc, errs, cc, prev) p = (e, (tc', errs', cc', prev'), p')"
  shows "generator p' = generator p \<and>
     (\<not> encodable (text' c) \<longrightarrow> e = Some UnicodeEncodeError) \<and>
     (encodable (text' c) \<longrightarrow>
        e = None \<and> length tc' = length tc + 1 \<and>
        ((errs' = errs \<and> cc' = cc + 1) \<or>
         (errs' = errs @ [(id' c, lit ''API key not configured'')] \<and> cc' = cc \<and>
          tc' = tc @ [failure_placeholder (text' c)])))"
proof (cases "encodable (text' c)")
  case False
  then show ?thesis using assms(2) by (auto simp: translate_chunk_def get_text_raises)
next
  case enc: True
  obtain found c1 where g: "cache_get (md5 env) (cache' p) (text' c) = (found, c1)"
    by (cases "cache_get (md5 env) (cache' p) (text' c)") auto
  have m: "truthy (Some (lit ''API key not configured''))"
    "str_of (Some (lit ''API key not configured'')) = lit ''API key not configured''"
    by (simp_all add: truthy_def str_of_def lit_def)
  have k: "\<not> truthy (api_key (generator (p\<lparr>cache' := c1\<rparr>)))" using assms(1) by simp
  show ?thesis
  proof (cases "truthy (case found of None \<Rightarrow> None | Some v \<Rightarrow> v)")
    case True
    then show ?thesis using assms(2) g enc
      by (auto simp: translate_chunk_def Let_def get_text_encodable)
  next
    case False
    then show ?thesis
      using assms(2) g m generate_keyless[OF k] enc
      by (auto simp: translate_chunk_def generate_chunk_def Let_def get_text_encodable)
  qed
qed

lemma keyless_chunks_any:
  "\<not> truthy (api_key (generator p)) \<Longrightarrow>
   translate_chunks env src tgt i cs (tc, errs, cc, prev) p = (e, (tc', errs', cc', prev'), p') \<Longrightarrow>
   generator p' = generator p \<and>
   (\<not> list_all (\<lambda>c. encodable (text' c)) cs \<longrightarrow> e = Some UnicodeEncodeError) \<and>
   (list_all (\<lambda>c. encodable (text' c)) cs \<longrightarrow>
      e = None \<and> length tc' = length tc + length cs \<and>
      length errs' + cc' = length errs + cc + length cs \<and>
      (\<exists>new. errs' = errs @ new \<and> list_all (\<lambda>x. snd x = lit ''API key not configured'') new))"
proof (induction cs arbitrary: i tc errs cc prev p)
  case Nil
  then show ?case by simp
next
  case (Cons c cs)
  obtain e1 tc1 errs1 cc1 prev1 p1 where
    s: "translate_chunk env src tgt i c (tc, errs, cc, prev) p = (e1, (tc1, errs1, cc1, prev1), p1)"
    by (cases "translate_chunk env src tgt i c (tc, errs, cc, prev) p") auto
  note f = keyless_chunk_any[OF Cons.prems(1) s]
  from f have g1: "generator p1 = generator p" by simp
  show ?case
  proof (cases "encodable (text' c)")
    case False
    with f have "e1 = Some UnicodeEncodeError" by simp
    with s Cons.prems(2) g1 False show ?thesis by auto
  next
    case True
    with f have e1: "e1 = None" by simp
    have k: "\<not> truthy (api_key (generator p1))" using Cons.prems(1) g1 by simp
    have r: "translate_chunks env src tgt (i + 1) cs (tc1, errs1, cc1, prev1) p1 =
        (e, (tc', errs', cc', prev'), p')"
      using Cons.prems(2) s e1 by simp
    note ih = Cons.IH[OF k r]
    have x: "\<exists>new. errs' = errs @ new \<and>
        list_all (\<lambda>x. snd x = lit ''API key not configured'') new"
      if a: "list_all (\<lambda>c. encodable (text' c)) cs"
    proof -
      from ih a obtain new where n: "errs' = errs1 @ new"
        "list_all (\<lambda>x. snd x = lit ''API key not configured'') new" by blast
      from f True have "\<exists>new1. errs1 = errs @ new1 \<and>
          list_all (\<lambda>x. snd x = lit ''API key not configured'') new1"
        by auto
      then obtain new1 where n1: "errs1 = errs @ new1"
        "list_all (\<lambda>x. snd x = lit ''API key not configured'') new1" by blast
      have "errs' = errs @ (new1 @ new) \<and>
          list_all (\<lambda>x. snd x = lit ''API key not configured'') (new1 @ new)"
        using n n1 by simp
      then show ?thesis by blast
    qed
    have l: "length errs1 + cc1 = length errs + cc + 1" "length tc1 = length tc + 1"
      using f True by auto
    show ?thesis using ih g1 x l True by simp
  qed
qed

lemma keyless_run_any:
  assumes "\<not> truthy (api_key (generator p))"
    and "chunk_document (decimal env) s CHUNK_SIZE OVERLAP_SIZE = cs" and "cs \<noteq> []"
  shows "generator (snd (translate_document env p s src tgt)) = generator p"
    and "\<not> list_all (\<lambda>c. encodable (text' c)) cs \<Longrightarrow>
           fst (translate_document env p s src tgt) = Inl UnicodeEncodeError"
    and "list_all (\<lambda>c. encodable (text' c)) cs \<Longrightarrow>
         \<exists>t r. fst (translate_document env p s src tgt) = Inr (t, Metadata r) \<and>
           total_chunks r = length cs \<and> failed_chunks r + cached_chunks r = length cs \<and>
           list_all (\<lambda>x. snd x = lit ''API key not configured'')
             (case errors r of None \<Rightarrow> [] | Some l \<Rightarrow> l) \<and>
           api_requests r = request_count (generator p)"
proof -
  obtain e tc' errs' cc' prev' p' where
    t: "translate_chunks env src tgt 0 cs ([], [], 0, []) p = (e, (tc', errs', cc', prev'), p')"
    by (cases "translate_chunks env src tgt 0 cs ([], [], 0, []) p") auto
  note f = keyless_chunks_any[OF assms(1) t]
  from f have g: "generator p' = generator p" by simp
  show "generator (snd (translate_document env p s src tgt)) = generator p"
    using translate_document_run(2)[OF assms(2,3) t] g by simp
  show "fst (translate_document env p s src tgt) = Inl UnicodeEncodeError"
    if "\<not> list_all (\<lambda>c. encodable (text' c)) cs"
    using translate_document_run(1)[OF assms(2,3) t] f that by simp
  show "\<exists>t r. fst (translate_document env p s src tgt) = Inr (t, Metadata r) \<and>
           total_chunks r = length cs \<and> failed_chunks r + cached_chunks r = length cs \<and>
           list_all (\<lambda>x. snd x = lit ''API key not configured'')
             (case errors r of None \<Rightarrow> [] | Some l \<Rightarrow> l) \<and>
           api_requests r = request_count (generator p)"
    if a: "list_all (\<lambda>c. encodable (text' c)) cs"
  proof -
    from f a have e: "e = None"
      and n: "length errs' + cc' = length cs"
      and l: "list_all (\<lambda>x. snd x = lit ''API key not configured'') errs'"
      by auto
    let ?t = "combine_chunks (str_lower env) tc'"
    let ?r = "make_metadata env s (length cs) (tc', errs', cc', prev') p' ?t"
    have 1: "fst (translate_document env p s src tgt) = Inr (?t, Metadata ?r)"
      using translate_document_run(1)[OF assms(2,3) t] e by simp
    have 2: "total_chunks ?r = length cs" "failed_chunks ?r + cached_chunks ?r = length cs"
      "api_requests ?r = request_count (generator p)"
      "list_all (\<lambda>x. snd x = lit ''API key not configured'')
         (case errors ?r of None \<Rightarrow> [] | Some l \<Rightarrow> l)"
      using n g l by (simp_all add: make_metadata_def none_if_empty_def)
    show ?thesis using 1 2 by blast
  qed
qed

lemma keyless_after_hello_state:
  "\<not> truthy (api_key (generator keyless_after_hello))"
  "cache (cache' keyless_after_hello) = []"
  "misses (cache' keyless_after_hello) = 1"
  "generator keyless_after_hello = \<lparr>api_key = None, request_count = 0, posts = 0\<rparr>"
proof -
  have n: "[hello_chunk] \<noteq> []" by simp
  have en: "list_all (\<lambda>c. encodable (text' c)) [hello_chunk]"
    by (simp add: hello_chunk_fields encodable_examples)
  note r = keyless_run(2,3)[OF keyless_new_pipeline(1,2) hello_document n en,
      where src = "lit ''Urdu''" and tgt = "lit ''English''" and endpoint1 = always_ok,
      folded keyless_after_hello_def]
  show "\<not> truthy (api_key (generator keyless_after_hello))"
    unfolding r(1) by (rule keyless_new_pipeline(1))
  show "cache (cache' keyless_after_hello) = []"
    unfolding r(2) by (simp add: keyless_new_pipeline(2))
  show "misses (cache' keyless_after_hello) = 1"
    unfolding r(2) by (simp add: RAGTranslationPipeline_def TranslationCache_def)
  show "generator keyless_after_hello = \<lparr>api_key = None, request_count = 0, posts = 0\<rparr>"
    unfolding r(1) by (simp add: RAGTranslationPipeline_def GeminiGenerator_def)
qed

text \<open>
  Claim C2, as amended. Without an API key \<open>generate\<close> returns the error
  "API key not configured" at once, with no POST and no retry (the client is unchanged),
  but the run is not stopped: \<open>translate_document\<close> looks every chunk up in the cache and
  calls \<open>generate\<close> for every chunk it does not find. When every chunk text can be
  encoded as UTF-8 it returns a text and metadata in which every chunk is either cached
  or failed, each error with that message, and on an empty cache every chunk fails and
  the text is made of the placeholders. When a chunk text holds a lone surrogate the
  cache lookup of that chunk raises \<open>UnicodeEncodeError\<close>. The client is unchanged in
  every case.
\<close>

theorem missing_key_fails_every_chunk:
  assumes "\<not> truthy (api_key (generator p))"
    and "chunk_document (decimal env) s CHUNK_SIZE OVERLAP_SIZE = cs" and "cs \<noteq> []"
  shows "generate (post env) (generator p) q =
           ((None, Some (lit ''API key not configured'')), generator p) \<and>
         generator (snd (translate_document env p s source_lang target_lang)) = generator p \<and>
         (\<not> list_all (\<lambda>c. encodable (text' c)) cs \<longrightarrow>
            fst (translate_document env p s source_lang target_lang) = Inl UnicodeEncodeError) \<and>
         (list_all (\<lambda>c. encodable (text' c)) cs \<longrightarrow>
            (\<exists>t r. fst (translate_document env p s source_lang target_lang) = Inr (t, Metadata r) \<and>
               total_chunks r = length cs \<and> failed_chunks r + cached_chunks r = length cs \<and>
               list_all (\<lambda>x. snd x = lit ''API key not configured'')
                 (case errors r of None \<Rightarrow> [] | Some l \<Rightarrow> l) \<and>
               api_requests r = request_count (generator p))) \<and>
         (list_all (\<lambda>c. encodable (text' c)) cs \<and> cache (cache' p) = [] \<longrightarrow>
            result_text (fst (translate_document env p s source_lang target_lang)) =
              Some (combine_chunks (str_lower env) (map (\<lambda>c. failure_placeholder (text' c)) cs)) \<and>
            map_option failed_chunks
                (run_metadata_of (fst (translate_document env p s source_lang target_lang))) =
              Some (length cs) \<and>
            map_option successful_chunks
                (run_metadata_of (fst (translate_document env p s source_lang target_lang))) =
              Some 0 \<and>
            map_option errors
                (run_metadata_of (fst (translate_document env p s source_lang target_lang))) =
              Some (Some (map (\<lambda>c. (id' c, lit ''API key not configured'')) cs)) \<and>
            map_option cache_misses
                (run_metadata_of (fst (translate_document env p s source_lang target_lang))) =
              Some (misses (cache' p) + length cs))"
proof -
  have a: "generate (post env) (generator p) q =
           ((None, Some (lit ''API key not configured'')), generator p)"
    by (rule generate_keyless[OF assms(1)])
  note b = keyless_run_any[OF assms, of source_lang target_lang]
  have c: "result_text (fst (translate_document env p s source_lang target_lang)) =
              Some (combine_chunks (str_lower env) (map (\<lambda>c. failure_placeholder (text' c)) cs)) \<and>
            map_option failed_chunks
                (run_metadata_of (fst (translate_document env p s source_lang target_lang))) =
              Some (length cs) \<and>
            map_option successful_chunks
                (run_metadata_of (fst (translate_document env p s source_lang target_lang))) =
              Some 0 \<and>
            map_option errors
                (run_metadata_of (fst (translate_document env p s source_lang target_lang))) =
              Some (Some (map (\<lambda>c. (id' c, lit ''API key not configured'')) cs)) \<and>
            map_option cache_misses
                (run_metadata_of (fst (translate_document env p s source_lang target_lang))) =
              Some (misses (cache' p) + length cs)"
    if "cache (cache' p) = []" and "list_all (\<lambda>c. encodable (text' c)) cs"
    using keyless_run(1)[OF assms(1) that(1) assms(2,3) that(2), of source_lang target_lang]
      assms(3)
    by (simp add: result_text_def run_metadata_of_def make_metadata_def none_if_empty_def)
  show ?thesis using a b c by blast
qed

text \<open>
  The two chunks of \<open>two_chunk_text\<close> on the pipeline \<open>keyless_after_hello\<close>, which has no
  key and one cache miss behind it: both chunks are looked up and fail, and the client
  is as before.
\<close>

theorem missing_key_fails_every_chunk_witness:
  "\<not> truthy (api_key (generator keyless_after_hello)) \<and>
   chunk_document (decimal (example_env always_ok)) two_chunk_text CHUNK_SIZE OVERLAP_SIZE =
     [\<lparr>id' = 0, text' = replicate 1199 97 @ [46], start_pos = 0, end_pos = 1201,
       page_number = Some 1, embedding = None\<rparr>,
      \<lparr>id' = 1, text' = replicate 149 97 @ [46, 32, 98, 46], start_pos = 1051, end_pos = 1205,
       page_number = Some 1, embedding = None\<rparr>] \<and>
   list_all (\<lambda>c. encodable (text' c))
     [\<lparr>id' = 0, text' = replicate 1199 97 @ [46], start_pos = 0, end_pos = 1201,
       page_number = Some 1, embedding = None\<rparr>,
      \<lparr>id' = 1, text' = replicate 149 97 @ [46, 32, 98, 46], start_pos = 1051, end_pos = 1205,
       page_number = Some 1, embedding = None\<rparr>] \<and>
   cache (cache' keyless_after_hello) = [] \<and>
   misses (cache' keyless_after_hello) = 1 \<and>
   generate (post (example_env always_ok)) (generator keyless_after_hello)
       (Translation_prompt (lit ''Urdu'') (lit ''English'') (replicate 1199 97 @ [46])) =
     ((None, Some (lit ''API key not configured'')), generator keyless_after_hello) \<and>
   map_option total_chunks (run_metadata_of (fst (translate_document (example_env always_ok)
       keyless_after_hello two_chunk_text (lit ''Urdu'') (lit ''English'')))) = Some 2 \<and>
   map_option failed_chunks (run_metadata_of (fst (translate_document (example_env always_ok)
       keyless_after_hello two_chunk_text (lit ''Urdu'') (lit ''English'')))) = Some 2 \<and>
   map_option successful_chunks (run_metadata_of (fst (translate_document (example_env always_ok)
       keyless_after_hello two_chunk_text (lit ''Urdu'') (lit ''English'')))) = Some 0 \<and>
   map_option errors (run_metadata_of (fst (translate_document (example_env always_ok)
       keyless_after_hello two_chunk_text (lit ''Urdu'') (lit ''English'')))) =
     Some (Some [(0, lit ''API key not configured''), (1, lit ''API key not configured'')]) \<and>
   map_option cache_misses (run_metadata_of (fst (translate_document (example_env always_ok)
       keyless_after_hello two_chunk_text (lit ''Urdu'') (lit ''English'')))) = Some 3 \<and>
   generator (snd (translate_document (example_env always_ok) keyless_after_hello two_chunk_text
       (lit ''Urdu'') (lit ''English''))) = generator keyless_after_hello"
proof -
  let ?E = "example_env always_ok"
  let ?U = "lit ''Urdu''" and ?N = "lit ''English''"
  let ?cs = "[\<lparr>id' = 0, text' = replicate 1199 97 @ [46], start_pos = 0, end_pos = 1201,
       page_number = Some 1, embedding = None\<rparr>,
      \<lparr>id' = 1, text' = replicate 149 97 @ [46, 32, 98, 46], start_pos = 1051, end_pos = 1205,
       page_number = Some 1, embedding = None\<rparr>]"
  let ?D = "translate_document ?E keyless_after_hello two_chunk_text ?U ?N"
  have k: "\<not> truthy (api_key (generator keyless_after_hello))"
    by (rule keyless_after_hello_state(1))
  have d: "chunk_document (decimal ?E) two_chunk_text CHUNK_SIZE OVERLAP_SIZE = ?cs"
    by (rule two_chunk_document)
  have n: "?cs \<noteq> []" by simp
  have en: "list_all (\<lambda>c. encodable (text' c)) ?cs" by (simp add: encodable_examples)
  have e: "cache (cache' keyless_after_hello) = []" by (rule keyless_after_hello_state(2))
  have m: "misses (cache' keyless_after_hello) = 1" by (rule keyless_after_hello_state(3))
  note T = missing_key_fails_every_chunk[OF k d n,
      where q = "Translation_prompt ?U ?N (replicate 1199 97 @ [46])"
        and source_lang = ?U and target_lang = ?N]
  from T have 0: "generate (post ?E) (generator keyless_after_hello)
       (Translation_prompt ?U ?N (replicate 1199 97 @ [46])) =
     ((None, Some (lit ''API key not configured'')), generator keyless_after_hello)"
    and 6: "generator (snd ?D) = generator keyless_after_hello"
    by blast+
  from T en e have
    2: "map_option failed_chunks (run_metadata_of (fst ?D)) = Some (length ?cs)"
    and 3: "map_option successful_chunks (run_metadata_of (fst ?D)) = Some 0"
    and 4: "map_option errors (run_metadata_of (fst ?D)) =
       Some (Some (map (\<lambda>c. (id' c, lit ''API key not configured'')) ?cs))"
    and 5: "map_option cache_misses (run_metadata_of (fst ?D)) =
       Some (misses (cache' keyless_after_hello) + length ?cs)"
    by blast+
  from T en obtain t r where r: "fst ?D = Inr (t, Metadata r)" "total_chunks r = length ?cs"
    by blast
  have 1: "map_option total_chunks (run_metadata_of (fst ?D)) = Some 2"
    using r by (simp add: run_metadata_of_def)
  have l: "length ?cs = 2" by simp
  have f2: "map_option failed_chunks (run_metadata_of (fst ?D)) = Some 2"
    using 2 unfolding l .
  have f4: "map_option errors (run_metadata_of (fst ?D)) =
     Some (Some [(0, lit ''API key not configured''), (1, lit ''API key not configured'')])"
    using 4 by simp
  have f5: "map_option cache_misses (run_metadata_of (fst ?D)) = Some 3"
  proof -
    have a: "(1::nat) + 2 = 3" by simp
    show ?thesis using 5 unfolding m l a .
  qed
  show ?thesis by (intro conjI k d en e m 0 1 f2 3 f4 f5 6)
qed

text \<open>
  The claim as stated fails: for the text \<open>two_chunk_text\<close>, of two chunks, a new pipeline
  without a key does not stop. The run returns a result, the cache was asked for both
  chunks, and both are reported as failed with the message of \<open>generate\<close>.
\<close>

theorem missing_key_fails_every_chunk_counterexample:
  "map text' (chunk_document (decimal (example_env always_ok)) two_chunk_text CHUNK_SIZE OVERLAP_SIZE) =
     [replicate 1199 97 @ lit ''.'', replicate 149 97 @ lit ''. b.''] \<and>
   map_option total_chunks (run_metadata_of (fst (translate_document (example_env always_ok)
       (RAGTranslationPipeline None :: ustr rag_pipeline) two_chunk_text (lit ''Urdu'') (lit ''English'')))) =
     Some 2 \<and>
   map_option failed_chunks (run_metadata_of (fst (translate_document (example_env always_ok)
       (RAGTranslationPipeline None :: ustr rag_pipeline) two_chunk_text (lit ''Urdu'') (lit ''English'')))) =
     Some 2 \<and>
   map_option errors (run_metadata_of (fst (translate_document (example_env always_ok)
       (RAGTranslationPipeline None :: ustr rag_pipeline) two_chunk_text (lit ''Urdu'') (lit ''English'')))) =
     Some (Some [(0, lit ''API key not configured''), (1, lit ''API key not configured'')]) \<and>
   map_option cache_misses (run_metadata_of (fst (translate_document (example_env always_ok)
       (RAGTranslationPipeline None :: ustr rag_pipeline) two_chunk_text (lit ''Urdu'') (lit ''English'')))) =
     Some 2"
proof -
  let ?E = "example_env always_ok"
  let ?P = "RAGTranslationPipeline None :: ustr rag_pipeline"
  let ?cs = "[\<lparr>id' = 0, text' = replicate 1199 97 @ [46], start_pos = 0, end_pos = 1201,
       page_number = Some 1, embedding = None\<rparr>,
      \<lparr>id' = 1, text' = replicate 149 97 @ [46, 32, 98, 46], start_pos = 1051, end_pos = 1205,
       page_number = Some 1, embedding = None\<rparr>]"
  have d: "chunk_document (decimal ?E) two_chunk_text CHUNK_SIZE OVERLAP_SIZE = ?cs"
    by (rule two_chunk_document)
  have n: "?cs \<noteq> []" by simp
  have en: "list_all (\<lambda>c. encodable (text' c)) ?cs" by (simp add: encodable_examples)
  have m: "misses (cache' ?P) = 0"
    by (simp add: RAGTranslationPipeline_def TranslationCache_def)
  note r = keyless_run(1)[OF keyless_new_pipeline(1,2) d n en,
      where src = "lit ''Urdu''" and tgt = "lit ''English''"]
  have 1: "map text' (chunk_document (decimal ?E) two_chunk_text CHUNK_SIZE OVERLAP_SIZE) =
     [replicate 1199 97 @ lit ''.'', replicate 149 97 @ lit ''. b.'']"
    unfolding d by (simp add: lit_def)
  have 2: "map_option total_chunks (run_metadata_of (fst (translate_document ?E ?P two_chunk_text
        (lit ''Urdu'') (lit ''English'')))) = Some 2"
    unfolding r by (simp add: run_metadata_of_def make_metadata_def)
  have 3: "map_option failed_chunks (run_metadata_of (fst (translate_document ?E ?P two_chunk_text
        (lit ''Urdu'') (lit ''English'')))) = Some 2"
    unfolding r by (simp add: run_metadata_of_def make_metadata_def)
  have 4: "map_option errors (run_metadata_of (fst (translate_document ?E ?P two_chunk_text
        (lit ''Urdu'') (lit ''English'')))) =
     Some (Some [(0, lit ''API key not configured''), (1, lit ''API key not configured'')])"
    unfolding r by (simp add: run_metadata_of_def make_metadata_def none_if_empty_def)
  have 5: "map_option cache_misses (run_metadata_of (fst (translate_document ?E ?P two_chunk_text
        (lit ''Urdu'') (lit ''English'')))) = Some 2"
    unfolding r by (simp add: run_metadata_of_def make_metadata_def m)
  show ?thesis by (intro conjI 1 2 3 4 5)
qed
section \<open>The pipeline object of the process\<close>

lemma get_rag_translator_again:
  "get_rag_translator key pr = (a, pr1) \<Longrightarrow> get_rag_translator key2 pr1 = (a, pr1)"
  by (auto simp: get_rag_translator_def split: option.splits)

lemma get_rag_translator_wf:
  "wf_process pr \<Longrightarrow> get_rag_translator key pr = (a, pr1) \<Longrightarrow>
   wf_process pr1 \<and> global_pipeline pr1 = Some a \<and> a < length (objects pr1) \<and>
   (global_pipeline pr = None \<longrightarrow> objects pr1 ! a = RAGTranslationPipeline key) \<and>
   (global_pipeline pr \<noteq> None \<longrightarrow> pr1 = pr)"
  by (auto simp: get_rag_translator_def wf_process_def split: option.splits)

lemma translate_with_rag_run:
  assumes "wf_process pr" and "get_rag_translator key pr = (a, pr1)"
  shows "fst (translate_with_rag env key pr s src tgt) =
           fst (translate_document env (objects pr1 ! a) s src tgt)"
    and "objects (snd (translate_with_rag env key pr s src tgt)) ! a =
           snd (translate_document env (objects pr1 ! a) s src tgt)"
    and "global_pipeline (snd (translate_with_rag env key pr s src tgt)) = Some a"
    and "wf_process (snd (translate_with_rag env key pr s src tgt))"
    and "length (objects (snd (translate_with_rag env key pr s src tgt))) = length (objects pr1)"
  using get_rag_translator_wf[OF assms] assms(2)
  by (simp_all add: translate_with_rag_def wf_process_def split: prod.splits)

lemma translate_document_carried:
  assumes "0 < max_size (cache' p)"
  shows "carried_over env p (snd (translate_document env p s src tgt))"
    and "chunk_document (decimal env) s CHUNK_SIZE OVERLAP_SIZE = [] \<Longrightarrow>
           snd (translate_document env p s src tgt) = p"
    and "chunk_document (decimal env) s CHUNK_SIZE OVERLAP_SIZE \<noteq> [] \<Longrightarrow>
           map text' (stored_chunks (vector_store (snd (translate_document env p s src tgt)))) =
             map text' (chunk_document (decimal env) s CHUNK_SIZE OVERLAP_SIZE) \<and>
           index_built (vector_store (snd (translate_document env p s src tgt)))"
proof -
  let ?cs = "chunk_document (decimal env) s CHUNK_SIZE OVERLAP_SIZE"
  show "carried_over env p (snd (translate_document env p s src tgt))"
  proof (cases "?cs = []")
    case True
    then show ?thesis by (simp add: translate_document_blank carried_over_refl)
  next
    case False
    obtain e pr p' where t: "translate_chunks env src tgt 0 ?cs ([], [], 0, []) p = (e, pr, p')"
      by (cases "translate_chunks env src tgt 0 ?cs ([], [], 0, []) p") auto
    from translate_chunks_frame[OF assms t] have "carried_over env p p'" by simp
    then show ?thesis
      using translate_document_run(2,3)[OF refl False t]
      by (simp add: carried_over_def)
  qed
  show "?cs = [] \<Longrightarrow> snd (translate_document env p s src tgt) = p"
    by (simp add: translate_document_blank)
  show "map text' (stored_chunks (vector_store (snd (translate_document env p s src tgt)))) =
             map text' ?cs \<and>
           index_built (vector_store (snd (translate_document env p s src tgt)))" if f: "?cs \<noteq> []"
  proof -
    obtain e pr p' where t: "translate_chunks env src tgt 0 ?cs ([], [], 0, []) p = (e, pr, p')"
      by (cases "translate_chunks env src tgt 0 ?cs ([], [], 0, []) p") auto
    show ?thesis using translate_document_run(4,5)[OF refl f t] by simp
  qed
qed

text \<open>
  Claim C9, as amended. The first call of \<open>get_rag_translator\<close> builds the pipeline object
  and every later call returns the same object and changes nothing.
  \<open>translate_with_rag\<close> runs \<open>translate_document\<close> on that object and leaves the result in
  it, whether the run returns or raises. From one run to the next the cache is changed
  only by the \<open>get\<close> and \<open>set\<close> calls of the run, the hit and miss counters and
  \<open>request_count\<close> do not go down, and the API key and the capacity stay. The vector
  store is cleared and refilled with the chunks of the document when the document has
  at least one chunk; a run on a document with no chunk returns before that and
  leaves the whole object, the vector store too, as it was. The capacity of the cache is
  taken to be positive, as in every pipeline the module builds.
\<close>

theorem shared_pipeline_carries_state:
  assumes "wf_process pr" and "get_rag_translator key pr = (a, pr1)"
    and "0 < max_size (cache' (objects pr1 ! a))"
  shows "get_rag_translator key2 pr1 = (a, pr1) \<and>
     get_rag_translator key2 (snd (translate_with_rag env key pr s source_lang target_lang)) =
       (a, snd (translate_with_rag env key pr s source_lang target_lang)) \<and>
     wf_process (snd (translate_with_rag env key pr s source_lang target_lang)) \<and>
     (global_pipeline pr = None \<longrightarrow> objects pr1 ! a = RAGTranslationPipeline key) \<and>
     (global_pipeline pr \<noteq> None \<longrightarrow> pr1 = pr) \<and>
     fst (translate_with_rag env key pr s source_lang target_lang) =
       fst (translate_document env (objects pr1 ! a) s source_lang target_lang) \<and>
     objects (snd (translate_with_rag env key pr s source_lang target_lang)) ! a =
       snd (translate_document env (objects pr1 ! a) s source_lang target_lang) \<and>
     carried_over env (objects pr1 ! a)
       (objects (snd (translate_with_rag env key pr s source_lang target_lang)) ! a) \<and>
     max_size (cache' (objects (snd (translate_with_rag env key pr s source_lang target_lang)) ! a)) =
       max_size (cache' (objects pr1 ! a)) \<and>
     hits (cache' (objects pr1 ! a)) \<le>
       hits (cache' (objects (snd (translate_with_rag env key pr s source_lang target_lang)) ! a)) \<and>
     misses (cache' (objects pr1 ! a)) \<le>
       misses (cache' (objects (snd (translate_with_rag env key pr s source_lang target_lang)) ! a)) \<and>
     request_count (generator (objects pr1 ! a)) \<le>
       request_count (generator (objects (snd (translate_with_rag env key pr s source_lang target_lang)) ! a)) \<and>
     (chunk_document (decimal env) s CHUNK_SIZE OVERLAP_SIZE \<noteq> [] \<longrightarrow>
        map text' (stored_chunks (vector_store
            (objects (snd (translate_with_rag env key pr s source_lang target_lang)) ! a))) =
          map text' (chunk_document (decimal env) s CHUNK_SIZE OVERLAP_SIZE)) \<and>
     (chunk_document (decimal env) s CHUNK_SIZE OVERLAP_SIZE = [] \<longrightarrow>
        objects (snd (translate_with_rag env key pr s source_lang target_lang)) ! a =
          objects pr1 ! a)"
proof -
  let ?p = "objects pr1 ! a"
  let ?R = "translate_with_rag env key pr s source_lang target_lang"
  note w = get_rag_translator_wf[OF assms(1,2)]
  note r = translate_with_rag_run[OF assms(1,2), of env s source_lang target_lang]
  note c = translate_document_carried[OF assms(3), of env s source_lang target_lang]
  have 1: "get_rag_translator key2 pr1 = (a, pr1)"
    by (rule get_rag_translator_again[OF assms(2)])
  have 2: "get_rag_translator key2 (snd ?R) = (a, snd ?R)"
    using r(3) by (simp add: get_rag_translator_def)
  have 3: "carried_over env ?p (objects (snd ?R) ! a)"
    unfolding r(2) by (rule c(1))
  from 3 have 4: "cache_steps (md5 env) (cache' ?p) (cache' (objects (snd ?R) ! a))"
    and 5: "request_count (generator ?p) \<le> request_count (generator (objects (snd ?R) ! a))"
    by (simp_all add: carried_over_def)
  note f = cache_steps_frame[OF 4]
  have 6: "chunk_document (decimal env) s CHUNK_SIZE OVERLAP_SIZE \<noteq> [] \<longrightarrow>
        map text' (stored_chunks (vector_store (objects (snd ?R) ! a))) =
          map text' (chunk_document (decimal env) s CHUNK_SIZE OVERLAP_SIZE)"
    unfolding r(2) using c(3) by simp
  have 7: "chunk_document (decimal env) s CHUNK_SIZE OVERLAP_SIZE = [] \<longrightarrow>
        objects (snd ?R) ! a = ?p"
    unfolding r(2) using c(2) by simp
  show ?thesis
    using 1 2 r(4) w r(1) r(2) 3 f 5 6 7 by simp
qed

text \<open>Two runs on the text \<open>Hello.\<close>: the first asks the endpoint, the second the cache.\<close>

lemma hello_first_chunks:
  "translate_chunks (example_env always_ok) (lit ''Urdu'') (lit ''English'') 0 [hello_chunk]
       ([], [], 0, [])
       \<lparr>vector_store = v,
        generator = \<lparr>api_key = Some (lit ''k''), request_count = 0, posts = 0\<rparr>,
        cache' = \<lparr>cache = [], max_size = 100, hits = 0, misses = 0\<rparr>\<rparr> =
     (None, ([lit ''Salam''], [], 0, lit ''Salam''),
      \<lparr>vector_store = v,
       generator = \<lparr>api_key = Some (lit ''k''), request_count = 1, posts = 1\<rparr>,
       cache' = \<lparr>cache = [(lit ''Hello.'', Some (lit ''Salam''))], max_size = 100, hits = 0,
                 misses = 1\<rparr>\<rparr>)"
  by (simp add: translate_chunk_def generate_chunk_def cache_get_def cache_set_def
      get_text_def set_text_def hash_key_def encodable_def generate_def generate_loop.simps[of _ _ 0] attempt_once_def always_ok_def
      example_env_def truthy_def str_of_def last200_def MAX_RETRIES_def hello_chunk_def
      get_translation_prompt_def strip_def lstrip_def rstrip_def isspace_def lit_def Let_def)

lemma hello_second_chunks:
  "translate_chunks (example_env always_ok) (lit ''Urdu'') (lit ''English'') 0 [hello_chunk]
       ([], [], 0, [])
       \<lparr>vector_store = v,
        generator = \<lparr>api_key = Some (lit ''k''), request_count = 1, posts = 1\<rparr>,
        cache' = \<lparr>cache = [(lit ''Hello.'', Some (lit ''Salam''))], max_size = 100, hits = 0,
                  misses = 1\<rparr>\<rparr> =
     (None, ([lit ''Salam''], [], 1, lit ''Salam''),
      \<lparr>vector_store = v,
       generator = \<lparr>api_key = Some (lit ''k''), request_count = 1, posts = 1\<rparr>,
       cache' = \<lparr>cache = [(lit ''Hello.'', Some (lit ''Salam''))], max_size = 100, hits = 1,
                 misses = 1\<rparr>\<rparr>)"
  by (simp add: translate_chunk_def cache_get_def get_text_def hash_key_def encodable_def
      example_env_def truthy_def str_of_def last200_def hello_chunk_def lit_def Let_def)

lemma first_translator:
  "get_rag_translator key (new_process :: ustr process) =
     (0, \<lparr>objects = [RAGTranslationPipeline key], global_pipeline = Some 0\<rparr>)"
  "wf_process (new_process :: ustr process)"
  by (simp_all add: get_rag_translator_def new_process_def wf_process_def)

lemma after_hello_object:
  "wf_process after_hello"
  "global_pipeline after_hello = Some 0"
  "generator (objects after_hello ! 0) =
     \<lparr>api_key = Some (lit ''k''), request_count = 1, posts = 1\<rparr>"
  "cache' (objects after_hello ! 0) =
     \<lparr>cache = [(lit ''Hello.'', Some (lit ''Salam''))], max_size = 100, hits = 0, misses = 1\<rparr>"
  "map text' (stored_chunks (vector_store (objects after_hello ! 0))) = [lit ''Hello.'']"
proof -
  let ?E = "example_env always_ok"
  let ?K = "Some (lit ''k'')"
  let ?P = "RAGTranslationPipeline ?K :: ustr rag_pipeline"
  note r = translate_with_rag_run[OF first_translator(2) first_translator(1)[of ?K],
      of ?E "lit ''Hello.''" "lit ''Urdu''" "lit ''English''"]
  have o: "objects after_hello ! 0 =
      snd (translate_document ?E ?P (lit ''Hello.'') (lit ''Urdu'') (lit ''English''))"
    using r(2) by (simp add: after_hello_def)
  have n: "[hello_chunk] \<noteq> []" by simp
  note d = translate_document_run(2,3,4)[OF hello_document n,
      of always_ok "lit ''Urdu''" "lit ''English''" ?P,
      unfolded new_pipeline_with_key, OF hello_first_chunks, folded new_pipeline_with_key]
  show "wf_process after_hello" using r(4) by (simp add: after_hello_def)
  show "global_pipeline after_hello = Some 0" using r(3) by (simp add: after_hello_def)
  show "generator (objects after_hello ! 0) =
     \<lparr>api_key = Some (lit ''k''), request_count = 1, posts = 1\<rparr>"
    unfolding o using d(1) by simp
  show "cache' (objects after_hello ! 0) =
     \<lparr>cache = [(lit ''Hello.'', Some (lit ''Salam''))], max_size = 100, hits = 0, misses = 1\<rparr>"
    unfolding o using d(2) by simp
  show "map text' (stored_chunks (vector_store (objects after_hello ! 0))) = [lit ''Hello.'']"
    unfolding o using d(3) by (simp add: hello_chunk_fields)
qed

lemma hello_again:
  assumes "generator p = \<lparr>api_key = Some (lit ''k''), request_count = 1, posts = 1\<rparr>"
    and "cache' p =
       \<lparr>cache = [(lit ''Hello.'', Some (lit ''Salam''))], max_size = 100, hits = 0, misses = 1\<rparr>"
  shows "translate_chunks (example_env always_ok) (lit ''Urdu'') (lit ''English'') 0 [hello_chunk]
       ([], [], 0, []) p =
     (None, ([lit ''Salam''], [], 1, lit ''Salam''),
      \<lparr>vector_store = vector_store p,
       generator = \<lparr>api_key = Some (lit ''k''), request_count = 1, posts = 1\<rparr>,
       cache' = \<lparr>cache = [(lit ''Hello.'', Some (lit ''Salam''))], max_size = 100, hits = 1,
                 misses = 1\<rparr>\<rparr>)"
proof -
  have "p = \<lparr>vector_store = vector_store p,
       generator = \<lparr>api_key = Some (lit ''k''), request_count = 1, posts = 1\<rparr>,
       cache' = \<lparr>cache = [(lit ''Hello.'', Some (lit ''Salam''))], max_size = 100, hits = 0,
                 misses = 1\<rparr>\<rparr>"
    using assms by (cases p) simp
  then show ?thesis using hello_second_chunks[of "vector_store p"] by simp
qed

lemma blank_document: "chunk_document digit [] chunk_size overlap = []"
  by (simp add: chunk_document_def)

text \<open>
  After the run on \<open>Hello.\<close>, a second call of \<open>translate_with_rag\<close> on the same text
  finds the same object: the chunk comes from the cache (one hit, still one miss and one
  API request), and the vector store holds the chunk of the document.
\<close>

theorem shared_pipeline_carries_state_witness:
  "wf_process after_hello \<and>
   get_rag_translator None after_hello = (0, after_hello) \<and>
   0 < max_size (cache' (objects after_hello ! 0)) \<and>
   cache (cache' (objects after_hello ! 0)) = [(lit ''Hello.'', Some (lit ''Salam''))] \<and>
   request_count (generator (objects after_hello ! 0)) = 1 \<and>
   get_rag_translator (Some (lit ''other''))
       (snd (translate_with_rag (example_env always_ok) None after_hello (lit ''Hello.'')
               (lit ''Urdu'') (lit ''English''))) =
     (0, snd (translate_with_rag (example_env always_ok) None after_hello (lit ''Hello.'')
               (lit ''Urdu'') (lit ''English''))) \<and>
   result_text (fst (translate_with_rag (example_env always_ok) None after_hello (lit ''Hello.'')
       (lit ''Urdu'') (lit ''English''))) = Some (lit ''Salam'') \<and>
   map_option cached_chunks (run_metadata_of (fst (translate_with_rag (example_env always_ok) None
       after_hello (lit ''Hello.'') (lit ''Urdu'') (lit ''English'')))) = Some 1 \<and>
   map_option api_requests (run_metadata_of (fst (translate_with_rag (example_env always_ok) None
       after_hello (lit ''Hello.'') (lit ''Urdu'') (lit ''English'')))) = Some 1 \<and>
   map_option cache_hits (run_metadata_of (fst (translate_with_rag (example_env always_ok) None
       after_hello (lit ''Hello.'') (lit ''Urdu'') (lit ''English'')))) = Some 1 \<and>
   map_option cache_misses (run_metadata_of (fst (translate_with_rag (example_env always_ok) None
       after_hello (lit ''Hello.'') (lit ''Urdu'') (lit ''English'')))) = Some 1 \<and>
   carried_over (example_env always_ok) (objects after_hello ! 0)
     (objects (snd (translate_with_rag (example_env always_ok) None after_hello (lit ''Hello.'')
        (lit ''Urdu'') (lit ''English''))) ! 0) \<and>
   map text' (stored_chunks (vector_store
     (objects (snd (translate_with_rag (example_env always_ok) None after_hello (lit ''Hello.'')
        (lit ''Urdu'') (lit ''English''))) ! 0))) = [lit ''Hello.'']"
proof -
  let ?E = "example_env always_ok"
  let ?U = "lit ''Urdu''" and ?N = "lit ''English''"
  let ?R = "translate_with_rag ?E None after_hello (lit ''Hello.'') ?U ?N"
  let ?Q = "objects after_hello ! 0"
  have h1: "wf_process after_hello" by (rule after_hello_object(1))
  have h2: "get_rag_translator None after_hello = (0, after_hello)"
    by (simp add: get_rag_translator_def after_hello_object(2))
  have h3: "0 < max_size (cache' ?Q)" by (simp add: after_hello_object(4))
  note T = shared_pipeline_carries_state[OF h1 h2 h3, where env = ?E and s = "lit ''Hello.''"
      and source_lang = ?U and target_lang = ?N and ?key2.0 = "Some (lit ''other'')"]
  have n: "[hello_chunk] \<noteq> []" by simp
  note c = hello_again[OF after_hello_object(3,4)]
  note d = translate_document_run(1)[OF hello_document n c]
  have k: "combine_chunks (str_lower ?E) [lit ''Salam''] = lit ''Salam''"
    by (simp add: combine_chunks_def strip_def lstrip_def rstrip_def isspace_def lit_def)
  from T have f: "fst ?R = fst (translate_document ?E ?Q (lit ''Hello.'') ?U ?N)" by blast
  have 1: "result_text (fst ?R) = Some (lit ''Salam'')"
    unfolding f d by (simp add: result_text_def k)
  have 2: "map_option cached_chunks (run_metadata_of (fst ?R)) = Some 1"
    unfolding f d by (simp add: run_metadata_of_def make_metadata_def)
  have 3: "map_option api_requests (run_metadata_of (fst ?R)) = Some 1"
    unfolding f d by (simp add: run_metadata_of_def make_metadata_def)
  have 4: "map_option cache_hits (run_metadata_of (fst ?R)) = Some 1"
    unfolding f d by (simp add: run_metadata_of_def make_metadata_def)
  have 5: "map_option cache_misses (run_metadata_of (fst ?R)) = Some 1"
    unfolding f d by (simp add: run_metadata_of_def make_metadata_def)
  from T have 6: "get_rag_translator (Some (lit ''other'')) (snd ?R) = (0, snd ?R)" by blast
  from T have 7: "carried_over ?E ?Q (objects (snd ?R) ! 0)" by blast
  have e: "chunk_document (decimal ?E) (lit ''Hello.'') CHUNK_SIZE OVERLAP_SIZE \<noteq> []"
    by (simp add: hello_document)
  from T e have 8: "map text' (stored_chunks (vector_store (objects (snd ?R) ! 0))) =
      map text' (chunk_document (decimal ?E) (lit ''Hello.'') CHUNK_SIZE OVERLAP_SIZE)" by blast
  have 9: "map text' (stored_chunks (vector_store (objects (snd ?R) ! 0))) = [lit ''Hello.'']"
    unfolding 8 by (simp add: hello_document hello_chunk_fields)
  have a: "cache (cache' ?Q) = [(lit ''Hello.'', Some (lit ''Salam''))]"
    "request_count (generator ?Q) = 1"
    by (simp_all add: after_hello_object(3,4))
  show ?thesis by (intro conjI h1 h2 h3 a 6 1 2 3 4 5 7 9)
qed

text \<open>
  The claim as stated fails for a document with no chunk: after the run on \<open>Hello.\<close> a
  run on the empty text returns at once, and the vector store still holds the chunk
  of the earlier document.
\<close>

theorem shared_pipeline_carries_state_counterexample:
  "map text' (stored_chunks (vector_store (objects after_hello ! 0))) = [lit ''Hello.''] \<and>
   fst (translate_with_rag (example_env always_ok) None after_hello [] (lit ''Urdu'')
          (lit ''English'')) = Inr ([], No_text) \<and>
   map text' (stored_chunks (vector_store
     (objects (snd (translate_with_rag (example_env always_ok) None after_hello []
        (lit ''Urdu'') (lit ''English''))) ! 0))) = [lit ''Hello.'']"
proof -
  let ?E = "example_env always_ok"
  let ?R = "translate_with_rag ?E None after_hello [] (lit ''Urdu'') (lit ''English'')"
  have h2: "get_rag_translator None after_hello = (0, after_hello)"
    by (simp add: get_rag_translator_def after_hello_object(2))
  note r = translate_with_rag_run(1,2)[OF after_hello_object(1) h2,
      of ?E "[]" "lit ''Urdu''" "lit ''English''"]
  note b = translate_document_blank[OF blank_document,
      of ?E "objects after_hello ! 0" "lit ''Urdu''" "lit ''English''"]
  have 1: "fst ?R = Inr ([], No_text)" unfolding r(1) b by simp
  have 2: "map text' (stored_chunks (vector_store (objects (snd ?R) ! 0))) = [lit ''Hello.'']"
    unfolding r(2) b by (simp add: after_hello_object(5))
  show ?thesis by (intro conjI after_hello_object(5) 1 2)
qed
end
